theory Spec2Isabelle
  imports Main
begin

section \<open>Parsing clang-tidy output: \<^verbatim>\<open>python_action/clang_tidy.py\<close>\<close>

text \<open>
  A shallow embedding of \<^verbatim>\<open>TidyNotification\<close> and \<^verbatim>\<open>parse_tidy_output\<close>.

  Modelling conventions.
  \<^item> A Python \<^verbatim>\<open>str\<close> is a \<^typ>\<open>string\<close>, and a character is a code point below
    256: \<open>CHR 0xA0\<close> is U+00A0. The character classes \<^verbatim>\<open>\d\<close>, \<^verbatim>\<open>\s\<close> and
    \<^verbatim>\<open>\w\<close>, the whitespace of \<^verbatim>\<open>str.strip\<close> and the whitespace and digits of
    \<^verbatim>\<open>int\<close> are those of Python on these code points. Text with other code points
    is outside the model.
  \<^item> An exception is a value of \<open>py_error\<close>; a call that can raise returns
    \<open>py_error + 'a\<close>.
  \<^item> \<^verbatim>\<open>sys.platform\<close>, \<^verbatim>\<open>os.getcwd() + os.sep\<close>, the text of
    \<^verbatim>\<open>clang_tidy_report.txt\<close> and the contents of the shared list
    \<^verbatim>\<open>GlobalParser.tidy_notes\<close> at the time of the call are parameters.
  \<^item> \<^verbatim>\<open>int\<close> is modelled without the limit on the number of digits that later
    interpreters can be configured with.
\<close>

subsection \<open>Characters and strings\<close>

definition NL :: char where
  "NL = CHR 0x0A"

text \<open>The characters for which \<^verbatim>\<open>str.isspace\<close> holds; they are the characters that
  \<^verbatim>\<open>\s\<close> matches and that \<^verbatim>\<open>str.strip\<close> removes.\<close>

definition is_space :: "char \<Rightarrow> bool" where
  "is_space c = (c \<in> set [CHR 0x09, CHR 0x0A, CHR 0x0B, CHR 0x0C, CHR 0x0D,
                           CHR 0x1C, CHR 0x1D, CHR 0x1E, CHR 0x1F, CHR 0x20,
                           CHR 0x85, CHR 0xA0])"

text \<open>The whitespace that \<^verbatim>\<open>int\<close> accepts around a number: the separators
  \<^verbatim>\<open>\x1c\<close> to \<^verbatim>\<open>\x1f\<close> are not among it.\<close>

definition is_int_space :: "char \<Rightarrow> bool" where
  "is_int_space c = (c \<in> set [CHR 0x09, CHR 0x0A, CHR 0x0B, CHR 0x0C, CHR 0x0D, CHR 0x20,
                               CHR 0x85, CHR 0xA0])"

text \<open>The characters that \<^verbatim>\<open>\d\<close> matches, which are also the digits of \<^verbatim>\<open>int\<close>.\<close>

definition is_digit :: "char \<Rightarrow> bool" where
  "is_digit c = (c \<in> set ''0123456789'')"

text \<open>The characters that \<^verbatim>\<open>\w\<close> matches: the underscore and the characters for which
  \<^verbatim>\<open>str.isalnum\<close> holds, which above U+007F are U+00AA, U+00B2, U+00B3, U+00B5, U+00B9,
  U+00BA, U+00BC to U+00BE and U+00C0 to U+00FF without U+00D7 and U+00F7.\<close>

definition is_word :: "char \<Rightarrow> bool" where
  "is_word c =
     (c \<in> set ''abcdefghijklmnopqrstuvwxyzABCDEFGHIJKLMNOPQRSTUVWXYZ0123456789_'' \<or>
      c \<in> set [CHR 0xAA, CHR 0xB2, CHR 0xB3, CHR 0xB5, CHR 0xB9, CHR 0xBA,
                 CHR 0xBC, CHR 0xBD, CHR 0xBE] \<or>
      ((0xC0 :: nat) \<le> of_char c \<and> c \<noteq> CHR 0xD7 \<and> c \<noteq> CHR 0xF7))"

text \<open>The characters of a class are removed at both ends.\<close>

definition trim :: "(char \<Rightarrow> bool) \<Rightarrow> string \<Rightarrow> string" where
  "trim P s = rev (dropWhile P (rev (dropWhile P s)))"

text \<open>\<^verbatim>\<open>str.strip()\<close>: whitespace is removed at both ends.\<close>

definition strip :: "string \<Rightarrow> string" where
  "strip s = trim is_space s"

text \<open>\<^verbatim>\<open>str.startswith\<close>.\<close>

definition startswith :: "string \<Rightarrow> string \<Rightarrow> bool" where
  "startswith s p = (take (length p) s = p)"

text \<open>\<^verbatim>\<open>str.split(sep)\<close> for a separator of one character: always at least one
  segment.\<close>

fun split_on :: "char \<Rightarrow> string \<Rightarrow> string list" where
  "split_on d [] = [[]]"
| "split_on d (c # cs) =
     (if c = d then [] # split_on d cs
      else (case split_on d cs of
              [] \<Rightarrow> [[c]]
            | x # xs \<Rightarrow> (c # x) # xs))"

text \<open>\<^verbatim>\<open>s.replace(old, "")\<close>: the occurrences of \<open>old\<close> are found from left to
  right, without overlap, and deleted. With an empty \<open>old\<close>, Python inserts the empty
  replacement between the characters, which gives \<open>s\<close>.\<close>

fun remove_all :: "string \<Rightarrow> string \<Rightarrow> string" where
  "remove_all old [] = []"
| "remove_all old (c # cs) =
     (if old \<noteq> [] \<and> take (length old) (c # cs) = old
      then remove_all old (drop (length old) (c # cs))
      else c # remove_all old cs)"

subsection \<open>Exceptions and integers\<close>

datatype py_error = ValueError | AttributeError

definition digit_val :: "char \<Rightarrow> nat" where
  "digit_val c = of_char c - 48"

text \<open>The digits of a decimal literal as \<^verbatim>\<open>int\<close> accepts them: single underscores
  are allowed between digits. The flag says that the previous character was a digit.\<close>

fun int_body :: "nat \<Rightarrow> bool \<Rightarrow> string \<Rightarrow> nat option" where
  "int_body acc prev_digit [] = (if prev_digit then Some acc else None)"
| "int_body acc prev_digit (c # cs) =
     (if is_digit c then int_body (10 * acc + digit_val c) True cs
      else if c = CHR ''_'' \<and> prev_digit then int_body acc False cs
      else None)"

text \<open>\<^verbatim>\<open>int(s)\<close>: surrounding whitespace is ignored, one sign is allowed, anything
  else raises \<^verbatim>\<open>ValueError\<close>.\<close>

definition py_int :: "string \<Rightarrow> py_error + int" where
  "py_int s =
     (case trim is_int_space s of
        [] \<Rightarrow> Inl ValueError
      | c # cs \<Rightarrow>
          (case (if c = CHR ''-'' \<or> c = CHR ''+'' then int_body 0 False cs
                 else int_body 0 False (c # cs)) of
             None \<Rightarrow> Inl ValueError
           | Some n \<Rightarrow> Inr (if c = CHR ''-'' then - int n else int n)))"

text \<open>\<^verbatim>\<open>str(n)\<close> for an integer, as \<^verbatim>\<open>"{}".format(n)\<close> renders it.\<close>

definition digit_char :: "nat \<Rightarrow> char" where
  "digit_char n = ''0123456789'' ! n"

fun show_nat :: "nat \<Rightarrow> string" where
  "show_nat n = (if n < 10 then [digit_char n] else show_nat (n div 10) @ [digit_char (n mod 10)])"

declare show_nat.simps [simp del]

definition show_int :: "int \<Rightarrow> string" where
  "show_int i = (if i < 0 then CHR ''-'' # show_nat (nat (- i)) else show_nat (nat i))"

subsection \<open>Regular expressions\<close>

text \<open>The patterns of the module use literals, \<^verbatim>\<open>.\<close> (any character but a newline),
  \<^verbatim>\<open>\d\<close>, \<^verbatim>\<open>\s\<close>, \<^verbatim>\<open>\w\<close>, concatenation, \<^verbatim>\<open>*\<close> and \<^verbatim>\<open>+\<close>. Whether a
  pattern matches a whole string is decided with derivatives.\<close>

datatype cclass = Lit char | Dot | Digit | Space | Word

fun cmatch :: "cclass \<Rightarrow> char \<Rightarrow> bool" where
  "cmatch (Lit a) c = (c = a)"
| "cmatch Dot c = (c \<noteq> NL)"
| "cmatch Digit c = is_digit c"
| "cmatch Space c = is_space c"
| "cmatch Word c = is_word c"

datatype rexp = Zero | One | Atom cclass | Alt rexp rexp | Seq rexp rexp | Star rexp

fun nullable :: "rexp \<Rightarrow> bool" where
  "nullable Zero = False"
| "nullable One = True"
| "nullable (Atom a) = False"
| "nullable (Alt r s) = (nullable r \<or> nullable s)"
| "nullable (Seq r s) = (nullable r \<and> nullable s)"
| "nullable (Star r) = True"

fun alt :: "rexp \<Rightarrow> rexp \<Rightarrow> rexp" where
  "alt Zero s = s"
| "alt r Zero = r"
| "alt r s = Alt r s"

fun seq :: "rexp \<Rightarrow> rexp \<Rightarrow> rexp" where
  "seq Zero s = Zero"
| "seq r Zero = Zero"
| "seq One s = s"
| "seq r s = Seq r s"

fun deriv :: "char \<Rightarrow> rexp \<Rightarrow> rexp" where
  "deriv c Zero = Zero"
| "deriv c One = Zero"
| "deriv c (Atom a) = (if cmatch a c then One else Zero)"
| "deriv c (Alt r s) = alt (deriv c r) (deriv c s)"
| "deriv c (Seq r s) =
     (if nullable r then alt (seq (deriv c r) s) (deriv c s) else seq (deriv c r) s)"
| "deriv c (Star r) = seq (deriv c r) (Star r)"

fun matches :: "rexp \<Rightarrow> string \<Rightarrow> bool" where
  "matches r [] = nullable r"
| "matches r (c # cs) = matches (deriv c r) cs"

definition plus :: "rexp \<Rightarrow> rexp" where
  "plus r = Seq r (Star r)"

text \<open>The body of \<^verbatim>\<open>"^.*:\d+:\d+:\s\w+:.*\[.*\]$"\<close>, between the anchors.\<close>

definition header_re :: rexp where
  "header_re =
     Seq (Star (Atom Dot)) (Seq (Atom (Lit CHR '':'')) (Seq (plus (Atom Digit))
    (Seq (Atom (Lit CHR '':'')) (Seq (plus (Atom Digit)) (Seq (Atom (Lit CHR '':''))
    (Seq (Atom Space) (Seq (plus (Atom Word)) (Seq (Atom (Lit CHR '':''))
    (Seq (Star (Atom Dot)) (Seq (Atom (Lit CHR ''[''))
    (Seq (Star (Atom Dot)) (Atom (Lit CHR '']'')))))))))))))"

text \<open>\<^verbatim>\<open>re.search("^.*:\d+:\d+:\s\w+:.*\[.*\]$", line) is not None\<close>. Without the
  multi-line flag \<^verbatim>\<open>^\<close> is the start of the string, and \<^verbatim>\<open>$\<close> is its end or the
  position before a newline that ends it.\<close>

definition is_header :: "string \<Rightarrow> bool" where
  "is_header l =
     (matches header_re l \<or> (l \<noteq> [] \<and> last l = NL \<and> matches header_re (butlast l)))"

text \<open>\<^verbatim>\<open>re.search("\[.*\]", s)\<close> and the text \<^verbatim>\<open>group(0)\<close> of its match: the match
  starts at the first \<^verbatim>\<open>[\<close> that has a \<^verbatim>\<open>]\<close> after it on the same line, and the
  greedy \<^verbatim>\<open>.*\<close> takes it to the last \<^verbatim>\<open>]\<close> of that line.\<close>

definition upto_last_close :: "string \<Rightarrow> string option" where
  "upto_last_close cs =
     (let seg = takeWhile (\<lambda>c. c \<noteq> NL) cs
      in if CHR '']'' \<in> set seg
         then Some (rev (dropWhile (\<lambda>c. c \<noteq> CHR '']'') (rev seg)))
         else None)"

fun search_bracket :: "string \<Rightarrow> string option" where
  "search_bracket [] = None"
| "search_bracket (c # cs) =
     (if c = CHR ''[''
      then (case upto_last_close cs of
              Some m \<Rightarrow> Some (c # m)
            | None \<Rightarrow> search_bracket cs)
      else search_bracket cs)"

subsection \<open>\<^verbatim>\<open>TidyNotification\<close>\<close>

record env =
  platform :: string
  cwd :: string
  sep :: string

record TidyNotification =
  diagnostic :: string
  filename :: string
  line :: int
  cols :: int
  note_type :: string
  note_info :: string
  fixit_lines :: "string list"

text \<open>The first three statements of \<^verbatim>\<open>__init__\<close>: the split at the colons and the
  re-assembly of a path with a drive letter.\<close>

definition sliced_line :: "env \<Rightarrow> string \<Rightarrow> string list" where
  "sliced_line e notification_line =
     (let sl = split_on CHR '':'' notification_line
      in if startswith (platform e) ''win32'' \<and> length sl > 5
         then (sl ! 0 @ '':'' @ sl ! 1) # drop 2 sl
         else sl)"

text \<open>\<^verbatim>\<open>TidyNotification.__init__\<close>. The unpacking of the segments into five names
  raises \<^verbatim>\<open>ValueError\<close> unless there are exactly five; \<^verbatim>\<open>.group(0)\<close> on the
  \<^verbatim>\<open>None\<close> of a failed search raises \<^verbatim>\<open>AttributeError\<close>; then come the two
  conversions with \<^verbatim>\<open>int\<close>, the line before the column.\<close>

definition TidyNotification_init :: "env \<Rightarrow> string \<Rightarrow> py_error + TidyNotification" where
  "TidyNotification_init e notification_line =
     (let sl = sliced_line e notification_line
      in if length sl \<noteq> 5 then Inl ValueError
         else (case search_bracket (sl ! 4) of
                 None \<Rightarrow> Inl AttributeError
               | Some d \<Rightarrow>
                   (case py_int (sl ! 1) of
                      Inl err \<Rightarrow> Inl err
                    | Inr l \<Rightarrow>
                        (case py_int (sl ! 2) of
                           Inl err \<Rightarrow> Inl err
                         | Inr c \<Rightarrow>
                             Inr \<lparr> diagnostic = butlast (tl d),
                                   filename = remove_all (cwd e @ sep e) (sl ! 0),
                                   line = l,
                                   cols = c,
                                   note_type = strip (sl ! 3),
                                   note_info = strip (remove_all d (sl ! 4)),
                                   fixit_lines = [] \<rparr>))))"

text \<open>\<^verbatim>\<open>log_command\<close>.\<close>

definition log_command :: "TidyNotification \<Rightarrow> string" where
  "log_command n =
     ''::'' @ (if startswith (note_type n) ''note'' then ''notice'' else note_type n)
     @ '' file='' @ filename n
     @ '',line='' @ show_int (line n)
     @ '',title='' @ filename n @ '':'' @ show_int (line n) @ '':'' @ show_int (cols n)
     @ '' ['' @ diagnostic n @ '']::'' @ note_info n"

subsection \<open>\<^verbatim>\<open>parse_tidy_output\<close>\<close>

text \<open>Reading the report in text mode translates \<^verbatim>\<open>\r\n\<close> and \<^verbatim>\<open>\r\<close> to
  \<^verbatim>\<open>\n\<close>; \<^verbatim>\<open>readlines\<close> cuts after every newline and keeps it.\<close>

fun universal_newlines :: "string \<Rightarrow> string" where
  "universal_newlines [] = []"
| "universal_newlines [c] = [if c = CHR 0x0D then NL else c]"
| "universal_newlines (c # d # cs) =
     (if c = CHR 0x0D \<and> d = NL then NL # universal_newlines cs
      else (if c = CHR 0x0D then NL else c) # universal_newlines (d # cs))"

fun readlines_acc :: "string \<Rightarrow> string \<Rightarrow> string list" where
  "readlines_acc acc [] = (if acc = [] then [] else [acc])"
| "readlines_acc acc (c # cs) =
     (if c = NL then (acc @ [c]) # readlines_acc [] cs else readlines_acc (acc @ [c]) cs)"

definition readlines :: "string \<Rightarrow> string list" where
  "readlines text = readlines_acc [] (universal_newlines text)"

text \<open>The loop. \<^verbatim>\<open>GlobalParser.tidy_notes\<close> is the list \<open>notes\<close>; the variable
  \<^verbatim>\<open>notification\<close> is \<^verbatim>\<open>None\<close> or refers to the object the loop appended last,
  which is modelled by the position of that object in \<open>notes\<close>, so that
  \<^verbatim>\<open>notification.fixit_lines.append(line)\<close> updates the element of the list. An
  exception leaves the loop; the result is the exception, if any, and the list as it is
  then.\<close>

definition append_fixit :: "string \<Rightarrow> TidyNotification \<Rightarrow> TidyNotification" where
  "append_fixit l n = n \<lparr> fixit_lines := fixit_lines n @ [l] \<rparr>"

fun parse_lines ::
  "env \<Rightarrow> nat option \<Rightarrow> TidyNotification list \<Rightarrow> string list
     \<Rightarrow> py_error option \<times> TidyNotification list" where
  "parse_lines e notification notes [] = (None, notes)"
| "parse_lines e notification notes (l # ls) =
     (if is_header l
      then (case TidyNotification_init e l of
              Inl err \<Rightarrow> (Some err, notes)
            | Inr n \<Rightarrow> parse_lines e (Some (length notes)) (notes @ [n]) ls)
      else (case notification of
              Some i \<Rightarrow> parse_lines e notification (notes[i := append_fixit l (notes ! i)]) ls
            | None \<Rightarrow> parse_lines e notification notes ls))"

definition parse_tidy_output ::
  "env \<Rightarrow> string \<Rightarrow> TidyNotification list \<Rightarrow> py_error option \<times> TidyNotification list" where
  "parse_tidy_output e report tidy_notes = parse_lines e None tidy_notes (readlines report)"

subsection \<open>Notions of the specification\<close>

text \<open>The header lines of an input, each with the lines that follow it up to the next
  header line or the end of the input. Lines before the first header line belong to no
  block.\<close>

fun blocks :: "string list \<Rightarrow> (string \<times> string list) list" where
  "blocks [] = []"
| "blocks (l # ls) =
     (if is_header l then (l, takeWhile (\<lambda>x. \<not> is_header x) ls) # blocks ls else blocks ls)"

text \<open>The records a pass is expected to produce from the blocks, up to the first header
  line whose construction raises.\<close>

fun collect :: "env \<Rightarrow> (string \<times> string list) list \<Rightarrow> py_error option \<times> TidyNotification list" where
  "collect e [] = (None, [])"
| "collect e ((h, ex) # bs) =
     (case TidyNotification_init e h of
        Inl err \<Rightarrow> (Some err, [])
      | Inr n \<Rightarrow> (case collect e bs of (err, ns) \<Rightarrow> (err, n\<lparr>fixit_lines := ex\<rparr> # ns)))"

text \<open>A record belongs to a block: it is what the constructor makes of the header line,
  with the lines of the block as its excerpt.\<close>

definition excerpt_of :: "env \<Rightarrow> TidyNotification \<Rightarrow> string \<times> string list \<Rightarrow> bool" where
  "excerpt_of e n b =
     (TidyNotification_init e (fst b) = Inr (n\<lparr>fixit_lines := []\<rparr>) \<and> fixit_lines n = snd b)"

text \<open>A header line written from the fields of a record, in the shape
  \<^verbatim>\<open><path>:<line>:<col>: <severity>: <message> [<check-id>]\<close> of the specification.\<close>

definition header_of_fields :: "TidyNotification \<Rightarrow> string" where
  "header_of_fields n =
     filename n @ '':'' @ show_int (line n) @ '':'' @ show_int (cols n) @ '': '' @ note_type n
     @ '': '' @ note_info n @ '' ['' @ diagnostic n @ '']''"

text \<open>The text \<open>old\<close> occurs in \<open>s\<close> at position \<open>i\<close>.\<close>

definition occurs_at :: "string \<Rightarrow> string \<Rightarrow> nat \<Rightarrow> bool" where
  "occurs_at old s i = (old \<noteq> [] \<and> take (length old) (drop i s) = old)"

text \<open>Inputs used as examples.\<close>

definition linux_env :: env where
  "linux_env = \<lparr> platform = ''linux'', cwd = ''/w'', sep = ''/'' \<rparr>"

definition windows_env :: env where
  "windows_env = \<lparr> platform = ''win32'', cwd = ''C:'' @ [CHR 0x5C] @ ''w'', sep = [CHR 0x5C] \<rparr>"

definition example_lines :: "string list" where
  "example_lines =
     [''/w/a.cpp:1:2: warning: x [c]'' @ [NL], ''  int x;'' @ [NL], ''  ^'' @ [NL],
      ''b.cpp:3:4: note: y [d]'' @ [NL], ''  foo'']"

definition example_notes :: "TidyNotification list" where
  "example_notes =
     [\<lparr> diagnostic = ''c'', filename = ''a.cpp'', line = 1, cols = 2, note_type = ''warning'',
        note_info = ''x'', fixit_lines = [''  int x;'' @ [NL], ''  ^'' @ [NL]] \<rparr>,
      \<lparr> diagnostic = ''d'', filename = ''b.cpp'', line = 3, cols = 4, note_type = ''note'',
        note_info = ''y'', fixit_lines = [''  foo''] \<rparr>]"

text \<open>The language of a regular expression.\<close>

definition conc :: "string set \<Rightarrow> string set \<Rightarrow> string set" where
  "conc A B = {a @ b | a b. a \<in> A \<and> b \<in> B}"

inductive_set star :: "string set \<Rightarrow> string set" for A :: "string set" where
  star_empty: "[] \<in> star A"
| star_more: "a \<in> A \<Longrightarrow> w \<in> star A \<Longrightarrow> a @ w \<in> star A"

fun lang :: "rexp \<Rightarrow> string set" where
  "lang Zero = {}"
| "lang One = {[]}"
| "lang (Atom a) = {[c] | c. cmatch a c}"
| "lang (Alt r s) = lang r \<union> lang s"
| "lang (Seq r s) = conc (lang r) (lang s)"
| "lang (Star r) = star (lang r)"

definition Deriv :: "char \<Rightarrow> string set \<Rightarrow> string set" where
  "Deriv c A = {w. c # w \<in> A}"


definition first_report :: string where
  "first_report = ''a.cpp:1:2: warning: x [c]'' @ [NL] @ ''  int x;'' @ [NL]"

definition second_report :: string where
  "second_report = ''b.cpp:3:4: note: y [d]'' @ [NL]"

section \<open>Strings\<close>

lemma split_on_not_Nil [simp]: "split_on d s \<noteq> []"
  by (induction s) (auto split: list.splits)

lemma split_on_free: "d \<notin> set s \<Longrightarrow> split_on d s = [s]"
  by (induction s) auto

lemma split_on_append: "split_on d (x @ d # y) = split_on d x @ split_on d y"
  by (induction x) (auto split: list.splits)

lemma split_on_segments: "seg \<in> set (split_on d s) \<Longrightarrow> d \<notin> set seg"
  by (induction s arbitrary: seg) (auto split: list.splits if_splits)

lemma length_split_on: "length (split_on d s) = Suc (count_list s d)"
  by (induction s) (auto split: list.splits)

lemma takeWhile_stop: "\<not> P y \<Longrightarrow> takeWhile P (xs @ y # ys) = takeWhile P xs"
  by (induction xs) auto

lemma takeWhile_rev_free: "d \<notin> set xs \<Longrightarrow> takeWhile (\<lambda>c. c \<noteq> d) (rev xs) = rev xs"
  by auto

lemma last_split_on: "last (split_on d s) = rev (takeWhile (\<lambda>c. c \<noteq> d) (rev s))"
proof (induction s rule: rev_induct)
  case Nil
  show ?case by simp
next
  case (snoc x xs)
  show ?case
  proof (cases "x = d")
    case True
    have "split_on d (xs @ [x]) = split_on d xs @ split_on d []"
      using True split_on_append[of d xs "[]"] by simp
    then show ?thesis using True by simp
  next
    case False
    show ?thesis
    proof (cases "d \<in> set xs")
      case False
      then show ?thesis using \<open>x \<noteq> d\<close> split_on_free[of d "xs @ [x]"]
        by (simp add: takeWhile_rev_free)
    next
      case True
      then obtain p q where pq: "xs = p @ d # q" "d \<notin> set q"
        by (meson split_list_last)
      have "split_on d (xs @ [x]) = split_on d p @ split_on d (q @ [x])"
        using pq split_on_append[of d p "q @ [x]"] by simp
      also have "split_on d (q @ [x]) = [q @ [x]]"
        using pq \<open>x \<noteq> d\<close> by (simp add: split_on_free)
      finally have "last (split_on d (xs @ [x])) = q @ [x]" by simp
      moreover have "takeWhile (\<lambda>c. c \<noteq> d) (rev (xs @ [x])) = x # rev q"
        using pq \<open>x \<noteq> d\<close> takeWhile_stop[of "\<lambda>c. c \<noteq> d" d "rev q" "rev p"]
        by (simp add: takeWhile_rev_free)
      ultimately show ?thesis by simp
    qed
  qed
qed

lemma split_on_two: "split_on d s = [a, b] \<Longrightarrow> s = a @ d # b"
proof (induction s arbitrary: a)
  case Nil
  then show ?case by simp
next
  case (Cons c cs)
  show ?case
  proof (cases "c = d")
    case True
    then have "a = []" "split_on d cs = [b]" using Cons.prems by auto
    moreover have "d \<notin> set cs"
      using \<open>split_on d cs = [b]\<close> length_split_on[of d cs] by (auto simp: count_list_0_iff)
    ultimately show ?thesis using True split_on_free[of d cs] by simp
  next
    case False
    then obtain a' where "a = c # a'" "split_on d cs = [a', b]"
      using Cons.prems by (auto split: list.splits)
    then show ?thesis using Cons.IH by simp
  qed
qed


lemma set_remove_all: "set (remove_all old s) \<subseteq> set s"
proof (induction old s rule: remove_all.induct)
  case (1 old)
  show ?case by simp
next
  case (2 old c cs)
  show ?case
  proof (cases "old \<noteq> [] \<and> take (length old) (c # cs) = old")
    case True
    then have "set (remove_all old (drop (length old) (c # cs))) \<subseteq> set (drop (length old) (c # cs))"
      using 2 by blast
    also have "\<dots> \<subseteq> set (c # cs)" by (rule set_drop_subset)
    finally show ?thesis using True by simp
  next
    case False
    then show ?thesis using 2 by auto
  qed
qed

lemma count_remove_all: "count_list (remove_all old s) x \<le> count_list s x"
proof (induction old s rule: remove_all.induct)
  case (1 old)
  show ?case by simp
next
  case (2 old c cs)
  show ?case
  proof (cases "old \<noteq> [] \<and> take (length old) (c # cs) = old")
    case True
    then have "count_list (remove_all old (drop (length old) (c # cs))) x \<le> count_list (drop (length old) (c # cs)) x"
      using 2 by blast
    also have "\<dots> \<le> count_list (take (length old) (c # cs)) x + count_list (drop (length old) (c # cs)) x"
      by simp
    also have "\<dots> = count_list (c # cs) x"
      by (metis append_take_drop_id count_list_append)
    finally show ?thesis using True by (simp del: count_list.simps)
  next
    case False
    then show ?thesis using 2 by auto
  qed
qed

lemma remove_all_first:
  "c \<notin> set p \<Longrightarrow> remove_all (c # old) (p @ (c # old) @ r) = p @ remove_all (c # old) r"
proof (induction p)
  case Nil
  show ?case by simp
next
  case (Cons x xs)
  then have "x \<noteq> c" by auto
  then show ?case using Cons by simp
qed

lemma remove_all_short: "length s < length old \<Longrightarrow> remove_all old s = s"
  by (induction s) auto

lemma remove_all_first_occurrence:
  assumes "old \<noteq> []" "\<forall>i<length a. \<not> occurs_at old (a @ old @ b) i"
  shows "remove_all old (a @ old @ b) = a @ remove_all old b"
  using assms(2)
proof (induction a)
  case Nil
  show ?case
  proof (cases old)
    case Nil
    then show ?thesis using assms(1) by simp
  next
    case (Cons x xs)
    have "remove_all (x # xs) ((x # xs) @ b) = remove_all (x # xs) b"
      by simp
    then show ?thesis using Cons by simp
  qed
next
  case (Cons x xs)
  have 0: "\<not> occurs_at old ((x # xs) @ old @ b) 0" using Cons.prems by auto
  have "\<forall>i<length xs. \<not> occurs_at old (xs @ old @ b) i"
  proof (intro allI impI)
    fix i assume "i < length xs"
    then have "\<not> occurs_at old ((x # xs) @ old @ b) (Suc i)" using Cons.prems by auto
    then show "\<not> occurs_at old (xs @ old @ b) i" by (simp add: occurs_at_def)
  qed
  then have "remove_all old (xs @ old @ b) = xs @ remove_all old b" by (rule Cons.IH)
  then show ?case using 0 assms(1) by (simp add: occurs_at_def)
qed

lemma remove_all_no_occurrence:
  "\<forall>i<length s. \<not> occurs_at old s i \<Longrightarrow> remove_all old s = s"
proof (induction s)
  case Nil
  show ?case by simp
next
  case (Cons x xs)
  have 0: "\<not> occurs_at old (x # xs) 0" using Cons.prems by auto
  have "\<forall>i<length xs. \<not> occurs_at old xs i"
  proof (intro allI impI)
    fix i assume "i < length xs"
    then have "\<not> occurs_at old (x # xs) (Suc i)" using Cons.prems by auto
    then show "\<not> occurs_at old xs i" by (simp add: occurs_at_def)
  qed
  then have "remove_all old xs = xs" by (rule Cons.IH)
  then show ?case using 0 by (auto simp: occurs_at_def)
qed

lemma dropWhile_all: "\<forall>c\<in>set a. P c \<Longrightarrow> dropWhile P (a @ s) = dropWhile P s"
  by (induction a) auto

lemma dropWhile_keep: "s \<noteq> [] \<Longrightarrow> \<not> P (hd s) \<Longrightarrow> dropWhile P (s @ b) = s @ b"
  by (cases s) auto

lemma set_trim: "set (trim P s) \<subseteq> set s"
proof
  fix x assume "x \<in> set (trim P s)"
  then have "x \<in> set (dropWhile P (rev (dropWhile P s)))"
    by (simp add: trim_def)
  then have "x \<in> set (rev (dropWhile P s))" by (rule set_dropWhileD)
  then have "x \<in> set (dropWhile P s)" by simp
  then show "x \<in> set s" by (rule set_dropWhileD)
qed

lemma trim_spaces: "\<forall>c\<in>set s. P c \<Longrightarrow> trim P s = []"
proof -
  assume "\<forall>c\<in>set s. P c"
  then have e: "dropWhile P s = []" by simp
  show ?thesis unfolding trim_def e by simp
qed

lemma trim_core:
  assumes "s \<noteq> []" "\<not> P (hd s)" "\<not> P (last s)"
    and a: "\<forall>c\<in>set a. P c" and b: "\<forall>c\<in>set b. P c"
  shows "trim P (a @ s @ b) = s"
proof -
  have "dropWhile P (a @ s @ b) = dropWhile P (s @ b)"
    using a by (rule dropWhile_all)
  also have "\<dots> = s @ b" using assms(1,2) by (rule dropWhile_keep)
  finally have 1: "dropWhile P (a @ s @ b) = s @ b" .
  have "dropWhile P (rev (s @ b)) = dropWhile P (rev b @ rev s)" by simp
  also have "\<dots> = dropWhile P (rev s)"
    using b by (intro dropWhile_all) simp
  also have "\<dots> = dropWhile P (rev s @ [])" by simp
  also have "\<dots> = rev s @ []"
    using assms(1,3) by (intro dropWhile_keep) (simp_all add: hd_rev)
  finally have 2: "dropWhile P (rev (s @ b)) = rev s" by simp
  show ?thesis by (simp only: trim_def 1 2 rev_rev_ident)
qed

lemma trim_ends:
  "trim P s = [] \<or> (\<not> P (hd (trim P s)) \<and> \<not> P (last (trim P s)))"
proof (cases "trim P s = []")
  case True
  then show ?thesis by simp
next
  case False
  let ?d = "dropWhile P s"
  let ?r = "dropWhile P (rev ?d)"
  have s: "trim P s = rev ?r" by (simp add: trim_def)
  have r: "?r \<noteq> []" using False s by simp
  then have "\<not> P (hd ?r)" by (rule hd_dropWhile)
  then have l: "\<not> P (last (trim P s))" using r s by (simp add: last_rev)
  have d: "?d \<noteq> []"
  proof
    assume "?d = []"
    then have "?r = []" by (simp only: rev.simps dropWhile.simps)
    then show False using r by contradiction
  qed
  then have hd: "\<not> P (hd ?d)" by (rule hd_dropWhile)
  have "rev ?d = takeWhile P (rev ?d) @ ?r" by simp
  then have "?d = rev ?r @ rev (takeWhile P (rev ?d))"
    by (metis rev_append rev_rev_ident)
  then have "hd ?d = hd (rev ?r)" using r by (metis hd_append2 rev_is_Nil_conv)
  then have "\<not> P (hd (trim P s))" using hd s by simp
  then show ?thesis using l by simp
qed

lemma trim_padded:
  assumes "\<forall>c\<in>set a. P c" "\<forall>c\<in>set b. P c"
  shows "trim P (a @ trim P s @ b) = trim P s"
proof (cases "trim P s = []")
  case True
  have "\<forall>c\<in>set (a @ b). P c" using assms by auto
  then have "trim P (a @ b) = []" by (rule trim_spaces)
  then show ?thesis using True by simp
next
  case False
  then show ?thesis using trim_ends[where s=s and P=P] trim_core[where s="trim P s" and a=a and b=b and P=P] assms by blast
qed

lemma trim_trailing:
  assumes b: "\<forall>c\<in>set b. P c"
  shows "trim P (s @ b) = trim P s"
proof (cases "\<forall>c\<in>set s. P c")
  case True
  then have "\<forall>c\<in>set (s @ b). P c" using b by auto
  then have "trim P (s @ b) = []" by (rule trim_spaces)
  then show ?thesis using True by (simp add: trim_spaces)
next
  case False
  then have d: "dropWhile P s \<noteq> []" by simp
  have 1: "dropWhile P (s @ b) = dropWhile P s @ b"
    using False by (auto simp: dropWhile_append)
  have "dropWhile P (rev (dropWhile P s @ b)) =
        dropWhile P (rev b @ rev (dropWhile P s))" by simp
  also have "\<dots> = dropWhile P (rev (dropWhile P s))"
    using b by (intro dropWhile_all) simp
  finally show ?thesis by (simp only: trim_def 1)
qed


lemma set_strip: "set (strip s) \<subseteq> set s"
  unfolding strip_def by (rule set_trim)

lemma strip_spaces: "\<forall>c\<in>set s. is_space c \<Longrightarrow> strip s = []"
  unfolding strip_def by (rule trim_spaces)

lemma strip_core:
  "s \<noteq> [] \<Longrightarrow> \<not> is_space (hd s) \<Longrightarrow> \<not> is_space (last s) \<Longrightarrow>
     \<forall>c\<in>set a. is_space c \<Longrightarrow> \<forall>c\<in>set b. is_space c \<Longrightarrow> strip (a @ s @ b) = s"
  unfolding strip_def by (rule trim_core)

lemma strip_padded:
  "\<forall>c\<in>set a. is_space c \<Longrightarrow> \<forall>c\<in>set b. is_space c \<Longrightarrow> strip (a @ strip s @ b) = strip s"
  unfolding strip_def by (rule trim_padded)

lemma strip_trailing: "\<forall>c\<in>set b. is_space c \<Longrightarrow> strip (s @ b) = strip s"
  unfolding strip_def by (rule trim_trailing)

lemma digit_char_digit: "n < 10 \<Longrightarrow> is_digit (digit_char n) \<and> digit_val (digit_char n) = n"
proof -
  assume "n < 10"
  then have "n \<in> {0,1,2,3,4,5,6,7,8,9}" by auto
  then show ?thesis
    by (auto simp: digit_char_def is_digit_def digit_val_def)
qed

lemma int_body_digits:
  "\<forall>c\<in>set xs. is_digit c \<Longrightarrow> xs \<noteq> [] \<Longrightarrow>
     int_body a b xs = Some (foldl (\<lambda>v c. 10 * v + digit_val c) a xs)"
proof (induction xs arbitrary: a b)
  case Nil
  then show ?case by simp
next
  case (Cons x xs)
  show ?case
  proof (cases "xs = []")
    case True
    then show ?thesis using Cons.prems by simp
  next
    case False
    then show ?thesis using Cons by simp
  qed
qed

lemma show_nat_digits: "\<forall>c\<in>set (show_nat n). is_digit c"
proof (induction n rule: show_nat.induct)
  case (1 n)
  show ?case
  proof (cases "n < 10")
    case True
    then show ?thesis using digit_char_digit[of n] by (simp add: show_nat.simps[of n])
  next
    case False
    then show ?thesis using 1 digit_char_digit[of "n mod 10"]
      by (simp add: show_nat.simps[of n])
  qed
qed

lemma show_nat_not_Nil: "show_nat n \<noteq> []"
  by (simp add: show_nat.simps[of n])

lemma show_nat_value: "foldl (\<lambda>v c. 10 * v + digit_val c) 0 (show_nat n) = n"
proof (induction n rule: show_nat.induct)
  case (1 n)
  show ?case
  proof (cases "n < 10")
    case True
    then show ?thesis using digit_char_digit[of n] by (simp add: show_nat.simps[of n])
  next
    case False
    then show ?thesis using 1 digit_char_digit[of "n mod 10"]
      by (simp add: show_nat.simps[of n])
  qed
qed

lemma digit_not_space:
  "is_digit c \<Longrightarrow>
     \<not> is_space c \<and> \<not> is_int_space c \<and> c \<noteq> CHR ''-'' \<and> c \<noteq> CHR ''+'' \<and> c \<noteq> CHR '':''"
  by (auto simp: is_digit_def is_space_def is_int_space_def)

lemma trim_show_nat: "trim is_int_space (show_nat n) = show_nat n"
proof -
  have "show_nat n \<noteq> []" by (rule show_nat_not_Nil)
  moreover have "is_digit (hd (show_nat n))" "is_digit (last (show_nat n))"
    using show_nat_digits[of n] show_nat_not_Nil[of n] by (simp_all)
  ultimately show ?thesis
    using trim_core[where s="show_nat n" and P=is_int_space and a="[]" and b="[]"] digit_not_space by simp
qed

lemma py_int_show_int: "py_int (show_int i) = Inr i"
proof (cases "i < 0")
  case False
  obtain c cs where s: "show_nat (nat i) = c # cs"
    using show_nat_not_Nil[of "nat i"] by (cases "show_nat (nat i)") auto
  have c: "is_digit c" using show_nat_digits[of "nat i"] s by simp
  have "int_body 0 False (c # cs) = Some (nat i)"
    using int_body_digits[of "show_nat (nat i)" 0 False] show_nat_digits[of "nat i"] s
      show_nat_value[of "nat i"] by simp
  then show ?thesis
    using False s trim_show_nat[of "nat i"] digit_not_space[OF c]
    by (simp add: py_int_def show_int_def)
next
  case True
  let ?n = "nat (- i)"
  have d: "show_nat ?n \<noteq> []" "is_digit (last (show_nat ?n))"
    using show_nat_digits[of ?n] show_nat_not_Nil[of ?n] by simp_all
  have "trim is_int_space ([] @ (CHR ''-'' # show_nat ?n) @ []) = CHR ''-'' # show_nat ?n"
    using d digit_not_space by (intro trim_core) (auto simp: is_int_space_def)
  then have st: "trim is_int_space (CHR ''-'' # show_nat ?n) = CHR ''-'' # show_nat ?n" by simp
  have "int_body 0 False (show_nat ?n) = Some ?n"
    using int_body_digits[of "show_nat ?n" 0 False] show_nat_digits[of ?n] d
      show_nat_value[of ?n] by simp
  then show ?thesis using True st by (simp add: py_int_def show_int_def)
qed

lemma show_int_no_colon: "CHR '':'' \<notin> set (show_int i)"
  using show_nat_digits digit_not_space by (auto simp: show_int_def)

lemma digit_no_colon: "is_digit c \<Longrightarrow> c \<noteq> CHR '':'' \<and> c \<noteq> NL"
  by (auto simp: is_digit_def NL_def)

lemma space_no_colon: "is_space c \<Longrightarrow> c \<noteq> CHR '':''"
  by (auto simp: is_space_def)

lemma of_char_consts:
  "of_char (CHR '':'') = (58::nat)" "of_char NL = (10::nat)" "of_char (CHR 0x85) = (133::nat)"
  "of_char (CHR 0xA0) = (160::nat)" "of_char (CHR 0x09) = (9::nat)" "of_char (CHR 0x0B) = (11::nat)"
  "of_char (CHR 0x0C) = (12::nat)" "of_char (CHR 0x0D) = (13::nat)" "of_char (CHR 0x1C) = (28::nat)"
  "of_char (CHR 0x1D) = (29::nat)" "of_char (CHR 0x1E) = (30::nat)" "of_char (CHR 0x1F) = (31::nat)"
  "of_char (CHR 0x20) = (32::nat)"
  by (simp_all add: NL_def)

lemma word_no_colon: "is_word c \<Longrightarrow> c \<noteq> CHR '':''"
  unfolding is_word_def using of_char_consts(1) by auto

lemma word_no_NL: "is_word c \<Longrightarrow> c \<noteq> NL"
  unfolding is_word_def using of_char_consts(2) by (auto simp: NL_def)

lemma word_no_space: "is_word c \<Longrightarrow> \<not> is_space c"
  unfolding is_word_def is_space_def using of_char_consts by (auto simp: NL_def)

section \<open>Regular expressions and their languages\<close>

lemma conc_empty [simp]: "conc {} B = {}" "conc A {} = {}"
  by (auto simp: conc_def)

lemma conc_unit [simp]: "conc {[]} B = B"
  by (auto simp: conc_def)

lemma nullable_iff: "nullable r \<longleftrightarrow> [] \<in> lang r"
  by (induction r) (auto simp: conc_def intro: star_empty)

lemma lang_alt: "lang (alt r s) = lang r \<union> lang s"
  by (induction r s rule: alt.induct) auto

lemma lang_seq: "lang (seq r s) = conc (lang r) (lang s)"
  by (induction r s rule: seq.induct) auto

lemma Deriv_union: "Deriv c (A \<union> B) = Deriv c A \<union> Deriv c B"
  by (auto simp: Deriv_def)

lemma Deriv_conc:
  "Deriv c (conc A B) = conc (Deriv c A) B \<union> (if [] \<in> A then Deriv c B else {})"
  by (auto simp: Deriv_def conc_def Cons_eq_append_conv) 

lemma star_Cons_split:
  "w \<in> star A \<Longrightarrow> w = c # v \<Longrightarrow> \<exists>a b. v = a @ b \<and> c # a \<in> A \<and> b \<in> star A"
proof (induction arbitrary: v rule: star.induct)
  case star_empty
  then show ?case by simp
next
  case (star_more a w)
  show ?case
  proof (cases a)
    case Nil
    then show ?thesis using star_more by simp
  next
    case (Cons x xs)
    then have "x = c" "v = xs @ w" using star_more.prems by auto
    then show ?thesis using star_more.hyps Cons by blast
  qed
qed

lemma Deriv_star: "Deriv c (star A) = conc (Deriv c A) (star A)"
proof
  show "Deriv c (star A) \<subseteq> conc (Deriv c A) (star A)"
    using star_Cons_split by (fastforce simp: Deriv_def conc_def)
  show "conc (Deriv c A) (star A) \<subseteq> Deriv c (star A)"
  proof
    fix w assume "w \<in> conc (Deriv c A) (star A)"
    then obtain a b where "w = a @ b" "c # a \<in> A" "b \<in> star A"
      by (auto simp: conc_def Deriv_def)
    then have "(c # a) @ b \<in> star A" by (blast intro: star_more)
    then show "w \<in> Deriv c (star A)" using \<open>w = a @ b\<close> by (simp add: Deriv_def)
  qed
qed

lemma lang_deriv: "lang (deriv c r) = Deriv c (lang r)"
proof (induction r)
  case (Atom a)
  show ?case by (auto simp: Deriv_def)
next
  case (Seq r s)
  then show ?case by (simp add: lang_alt lang_seq Deriv_conc nullable_iff)
next
  case (Star r)
  then show ?case by (simp add: lang_seq Deriv_star)
qed (auto simp: Deriv_def lang_alt)

lemma matches_iff: "matches r w \<longleftrightarrow> w \<in> lang r"
  by (induction w arbitrary: r) (simp_all add: nullable_iff lang_deriv Deriv_def)

lemma star_class: "star {[c] | c. P c} = {w. list_all P w}"
proof (intro set_eqI iffI)
  fix w assume "w \<in> star {[c] | c. P c}"
  then show "w \<in> {w. list_all P w}"
    by (induction rule: star.induct) auto
next
  fix w assume "w \<in> {w. list_all P w}"
  then have "list_all P w" by simp
  then show "w \<in> star {[c] | c. P c}"
  proof (induction w)
    case Nil
    show ?case by (rule star_empty)
  next
    case (Cons x xs)
    then have "[x] \<in> {[c] | c. P c}" "xs \<in> star {[c] | c. P c}" by auto
    then have "[x] @ xs \<in> star {[c] | c. P c}" by (rule star_more)
    then show ?case by simp
  qed
qed

lemma lang_star_atom: "lang (Star (Atom a)) = {w. list_all (cmatch a) w}"
  by (simp add: star_class)

lemma lang_plus_atom: "lang (plus (Atom a)) = {w. w \<noteq> [] \<and> list_all (cmatch a) w}"
proof -
  have "conc {[c] | c. cmatch a c} {w. list_all (cmatch a) w} = {w. w \<noteq> [] \<and> list_all (cmatch a) w}"
  proof (intro set_eqI iffI)
    fix w assume "w \<in> conc {[c] | c. cmatch a c} {w. list_all (cmatch a) w}"
    then show "w \<in> {w. w \<noteq> [] \<and> list_all (cmatch a) w}" by (auto simp: conc_def)
  next
    fix w assume "w \<in> {w. w \<noteq> [] \<and> list_all (cmatch a) w}"
    then obtain x xs where "w = [x] @ xs" "cmatch a x" "list_all (cmatch a) xs"
      by (cases w) auto
    then show "w \<in> conc {[c] | c. cmatch a c} {w. list_all (cmatch a) w}"
      unfolding conc_def by blast
  qed
  then show ?thesis by (simp add: plus_def star_class)
qed

lemma conc_lit: "conc {[c] | c. c = a} B = {a # w | w. w \<in> B}"
  by (auto simp: conc_def)

lemma in_conc: "w \<in> conc A B \<longleftrightarrow> (\<exists>a b. w = a @ b \<and> a \<in> A \<and> b \<in> B)"
  by (auto simp: conc_def)


lemma in_concI: "a \<in> A \<Longrightarrow> b \<in> B \<Longrightarrow> a @ b \<in> conc A B"
  by (auto simp: conc_def)

lemma lang_Seq_cls:
  "w \<in> lang (Seq (Atom a) r) \<longleftrightarrow> (\<exists>c v. w = c # v \<and> cmatch a c \<and> v \<in> lang r)"
proof
  assume "w \<in> lang (Seq (Atom a) r)"
  then show "\<exists>c v. w = c # v \<and> cmatch a c \<and> v \<in> lang r"
    by (auto simp: conc_def)
next
  assume "\<exists>c v. w = c # v \<and> cmatch a c \<and> v \<in> lang r"
  then obtain c v where w: "w = [c] @ v" and "cmatch a c" "v \<in> lang r" by auto
  then have "[c] \<in> lang (Atom a)" by simp
  then have "[c] @ v \<in> conc (lang (Atom a)) (lang r)"
    using \<open>v \<in> lang r\<close> by (rule in_concI)
  then show "w \<in> lang (Seq (Atom a) r)"
    unfolding w by simp
qed

lemma lang_Seq_lit:
  "w \<in> lang (Seq (Atom (Lit a)) r) \<longleftrightarrow> (\<exists>v. w = a # v \<and> v \<in> lang r)"
  unfolding lang_Seq_cls by auto

lemma lang_Seq_dots:
  "w \<in> lang (Seq (Star (Atom Dot)) r) \<longleftrightarrow> (\<exists>u v. w = u @ v \<and> NL \<notin> set u \<and> v \<in> lang r)"
  unfolding lang.simps(5) lang_star_atom in_conc by (auto simp: list_all_iff)

lemma lang_Seq_plus:
  "w \<in> lang (Seq (plus (Atom a)) r) \<longleftrightarrow>
     (\<exists>u v. w = u @ v \<and> u \<noteq> [] \<and> list_all (cmatch a) u \<and> v \<in> lang r)"
  unfolding lang.simps(5) lang_plus_atom in_conc by auto

lemma cmatch_class [simp]: "cmatch Word = is_word" "cmatch Digit = is_digit"
  by (rule ext, simp)+

lemma lang_lit: "w \<in> lang (Atom (Lit a)) \<longleftrightarrow> w = [a]"
  by auto

lemma lang_header_re:
  "w \<in> lang header_re \<longleftrightarrow>
     (\<exists>path d1 d2 s sev msg chk.
        w = path @ '':'' @ d1 @ '':'' @ d2 @ '':'' @ [s] @ sev @ '':'' @ msg @ ''['' @ chk @ '']'' \<and>
        NL \<notin> set path \<and> d1 \<noteq> [] \<and> list_all is_digit d1 \<and> d2 \<noteq> [] \<and> list_all is_digit d2 \<and>
        is_space s \<and> sev \<noteq> [] \<and> list_all is_word sev \<and> NL \<notin> set msg \<and> NL \<notin> set chk)"
  (is "?L \<longleftrightarrow> ?R")
proof -
  let ?rb = "Seq (Star (Atom Dot)) (Atom (Lit CHR '']''))"
  let ?ra = "Seq (Atom (Lit CHR ''['')) ?rb"
  let ?r9 = "Seq (Star (Atom Dot)) ?ra"
  let ?r8 = "Seq (Atom (Lit CHR '':'')) ?r9"
  let ?r7 = "Seq (plus (Atom Word)) ?r8"
  let ?r6 = "Seq (Atom Space) ?r7"
  let ?r5 = "Seq (Atom (Lit CHR '':'')) ?r6"
  let ?r4 = "Seq (plus (Atom Digit)) ?r5"
  let ?r3 = "Seq (Atom (Lit CHR '':'')) ?r4"
  let ?r2 = "Seq (plus (Atom Digit)) ?r3"
  let ?r1 = "Seq (Atom (Lit CHR '':'')) ?r2"
  have h: "header_re = Seq (Star (Atom Dot)) ?r1"
    by (simp add: header_re_def)
  have b: "\<And>w. w \<in> lang ?rb \<longleftrightarrow> (\<exists>chk. w = chk @ '']'' \<and> NL \<notin> set chk)"
    unfolding lang_Seq_dots lang_lit by (auto; blast)
  have a: "\<And>w. w \<in> lang ?ra \<longleftrightarrow> (\<exists>chk. w = ''['' @ chk @ '']'' \<and> NL \<notin> set chk)"
    unfolding lang_Seq_lit b by (auto; blast)
  have 9: "\<And>w. w \<in> lang ?r9 \<longleftrightarrow>
      (\<exists>msg chk. w = msg @ ''['' @ chk @ '']'' \<and> NL \<notin> set msg \<and> NL \<notin> set chk)"
    unfolding lang_Seq_dots a by (auto; blast)
  have 8: "\<And>w. w \<in> lang ?r8 \<longleftrightarrow>
      (\<exists>msg chk. w = '':'' @ msg @ ''['' @ chk @ '']'' \<and> NL \<notin> set msg \<and> NL \<notin> set chk)"
    unfolding lang_Seq_lit 9 by (auto; blast)
  have 7: "\<And>w. w \<in> lang ?r7 \<longleftrightarrow>
      (\<exists>sev msg chk. w = sev @ '':'' @ msg @ ''['' @ chk @ '']'' \<and> sev \<noteq> [] \<and>
         list_all is_word sev \<and> NL \<notin> set msg \<and> NL \<notin> set chk)"
    unfolding lang_Seq_plus 8 by (auto; blast)
  have 6: "\<And>w. w \<in> lang ?r6 \<longleftrightarrow>
      (\<exists>s sev msg chk. w = [s] @ sev @ '':'' @ msg @ ''['' @ chk @ '']'' \<and> is_space s \<and> sev \<noteq> [] \<and>
         list_all is_word sev \<and> NL \<notin> set msg \<and> NL \<notin> set chk)"
    unfolding lang_Seq_cls 7 by (auto; blast)
  have 5: "\<And>w. w \<in> lang ?r5 \<longleftrightarrow>
      (\<exists>s sev msg chk. w = '':'' @ [s] @ sev @ '':'' @ msg @ ''['' @ chk @ '']'' \<and> is_space s \<and> sev \<noteq> [] \<and>
         list_all is_word sev \<and> NL \<notin> set msg \<and> NL \<notin> set chk)"
    unfolding lang_Seq_lit 6 by (auto; blast)
  have 4: "\<And>w. w \<in> lang ?r4 \<longleftrightarrow>
      (\<exists>d2 s sev msg chk. w = d2 @ '':'' @ [s] @ sev @ '':'' @ msg @ ''['' @ chk @ '']'' \<and>
         d2 \<noteq> [] \<and> list_all is_digit d2 \<and> is_space s \<and> sev \<noteq> [] \<and>
         list_all is_word sev \<and> NL \<notin> set msg \<and> NL \<notin> set chk)"
    unfolding lang_Seq_plus 5 by (auto; blast)
  have 3: "\<And>w. w \<in> lang ?r3 \<longleftrightarrow>
      (\<exists>d2 s sev msg chk. w = '':'' @ d2 @ '':'' @ [s] @ sev @ '':'' @ msg @ ''['' @ chk @ '']'' \<and>
         d2 \<noteq> [] \<and> list_all is_digit d2 \<and> is_space s \<and> sev \<noteq> [] \<and>
         list_all is_word sev \<and> NL \<notin> set msg \<and> NL \<notin> set chk)"
    unfolding lang_Seq_lit 4 by (auto; blast)
  have 2: "\<And>w. w \<in> lang ?r2 \<longleftrightarrow>
      (\<exists>d1 d2 s sev msg chk. w = d1 @ '':'' @ d2 @ '':'' @ [s] @ sev @ '':'' @ msg @ ''['' @ chk @ '']'' \<and>
         d1 \<noteq> [] \<and> list_all is_digit d1 \<and> d2 \<noteq> [] \<and> list_all is_digit d2 \<and> is_space s \<and> sev \<noteq> [] \<and>
         list_all is_word sev \<and> NL \<notin> set msg \<and> NL \<notin> set chk)"
    unfolding lang_Seq_plus 3 by (auto; blast)
  have 1: "\<And>w. w \<in> lang ?r1 \<longleftrightarrow>
      (\<exists>d1 d2 s sev msg chk. w = '':'' @ d1 @ '':'' @ d2 @ '':'' @ [s] @ sev @ '':'' @ msg @ ''['' @ chk @ '']'' \<and>
         d1 \<noteq> [] \<and> list_all is_digit d1 \<and> d2 \<noteq> [] \<and> list_all is_digit d2 \<and> is_space s \<and> sev \<noteq> [] \<and>
         list_all is_word sev \<and> NL \<notin> set msg \<and> NL \<notin> set chk)"
    unfolding lang_Seq_lit 2 by (auto; blast)
  show ?thesis
    unfolding h lang_Seq_dots 1 by (auto; blast)
qed

lemma is_header_iff:
  "is_header l \<longleftrightarrow>
     (\<exists>path d1 d2 s sev msg chk nl.
        l = path @ '':'' @ d1 @ '':'' @ d2 @ '':'' @ [s] @ sev @ '':'' @ msg @ ''['' @ chk @ '']'' @ nl \<and>
        NL \<notin> set path \<and> d1 \<noteq> [] \<and> list_all is_digit d1 \<and> d2 \<noteq> [] \<and> list_all is_digit d2 \<and>
        is_space s \<and> sev \<noteq> [] \<and> list_all is_word sev \<and> NL \<notin> set msg \<and> NL \<notin> set chk \<and>
        (nl = [] \<or> nl = [NL]))"
  (is "?L \<longleftrightarrow> ?R")
proof
  assume ?L
  then consider "l \<in> lang header_re" | "l \<noteq> []" "last l = NL" "butlast l \<in> lang header_re"
    by (auto simp: is_header_def matches_iff)
  then show ?R
  proof cases
    case 1
    then obtain path d1 d2 s sev msg chk where
      "l = path @ '':'' @ d1 @ '':'' @ d2 @ '':'' @ [s] @ sev @ '':'' @ msg @ ''['' @ chk @ '']'' @ []"
      "NL \<notin> set path" "d1 \<noteq> []" "list_all is_digit d1" "d2 \<noteq> []" "list_all is_digit d2"
      "is_space s" "sev \<noteq> []" "list_all is_word sev" "NL \<notin> set msg" "NL \<notin> set chk"
      unfolding lang_header_re by auto
    then show ?thesis by blast
  next
    case 2
    from 2(3) obtain path d1 d2 s sev msg chk where
      b: "butlast l = path @ '':'' @ d1 @ '':'' @ d2 @ '':'' @ [s] @ sev @ '':'' @ msg @ ''['' @ chk @ '']''"
      and p: "NL \<notin> set path" "d1 \<noteq> []" "list_all is_digit d1" "d2 \<noteq> []" "list_all is_digit d2"
      "is_space s" "sev \<noteq> []" "list_all is_word sev" "NL \<notin> set msg" "NL \<notin> set chk"
      unfolding lang_header_re by auto
    have "l = butlast l @ [NL]" using 2(1,2) by (metis append_butlast_last_id)
    then have "l = path @ '':'' @ d1 @ '':'' @ d2 @ '':'' @ [s] @ sev @ '':'' @ msg @ ''['' @ chk @ '']'' @ [NL]"
      using b by simp
    then show ?thesis using p by blast
  qed
next
  assume ?R
  then obtain path d1 d2 s sev msg chk nl where
    l: "l = path @ '':'' @ d1 @ '':'' @ d2 @ '':'' @ [s] @ sev @ '':'' @ msg @ ''['' @ chk @ '']'' @ nl"
    and p: "NL \<notin> set path" "d1 \<noteq> []" "list_all is_digit d1" "d2 \<noteq> []" "list_all is_digit d2"
      "is_space s" "sev \<noteq> []" "list_all is_word sev" "NL \<notin> set msg" "NL \<notin> set chk"
    and nl: "nl = [] \<or> nl = [NL]"
    by blast
  let ?b = "path @ '':'' @ d1 @ '':'' @ d2 @ '':'' @ [s] @ sev @ '':'' @ msg @ ''['' @ chk @ '']''"
  have b: "?b \<in> lang header_re"
    unfolding lang_header_re using p by blast
  from nl show ?L
  proof
    assume "nl = []"
    then show ?thesis using b l by (simp add: is_header_def matches_iff)
  next
    assume "nl = [NL]"
    then have "l = ?b @ [NL]" using l by simp
    then have "l \<noteq> []" "last l = NL" "butlast l = ?b"
      by (simp_all add: butlast_append)
    then show ?thesis using b by (simp add: is_header_def matches_iff)
  qed
qed

section \<open>The header line matcher\<close>

text \<open>
  Claim C7, as amended. Every line that consists of a path without newline, a colon, a
  non-empty run of digits, a colon, a non-empty run of digits, a colon, one whitespace
  character, a non-empty severity word, a colon and a message without newline that ends
  with a bracketed token, where the closing bracket is the last character of the line or
  is followed only by the one newline that terminates the line, is classified as a header
  line. A line in which anything else follows the last closing bracket, such as a blank
  or a tab, is not classified as a header line.
\<close>

theorem header_line_shape:
  "(NL \<notin> set path \<and> d1 \<noteq> [] \<and> list_all is_digit d1 \<and> d2 \<noteq> [] \<and> list_all is_digit d2 \<and>
    is_space s \<and> sev \<noteq> [] \<and> list_all is_word sev \<and> NL \<notin> set msg \<and> NL \<notin> set chk \<and>
    (nl = [] \<or> nl = [NL]) \<longrightarrow>
      is_header (path @ '':'' @ d1 @ '':'' @ d2 @ '':'' @ [s] @ sev @ '':'' @ msg @ ''['' @ chk @ '']'' @ nl)) \<and>
   (is_header l \<longrightarrow> (\<exists>b. l = b @ '']'' \<or> l = b @ '']'' @ [NL]))"
proof (intro conjI impI)
  assume "NL \<notin> set path \<and> d1 \<noteq> [] \<and> list_all is_digit d1 \<and> d2 \<noteq> [] \<and> list_all is_digit d2 \<and>
    is_space s \<and> sev \<noteq> [] \<and> list_all is_word sev \<and> NL \<notin> set msg \<and> NL \<notin> set chk \<and>
    (nl = [] \<or> nl = [NL])"
  then show "is_header (path @ '':'' @ d1 @ '':'' @ d2 @ '':'' @ [s] @ sev @ '':'' @ msg @ ''['' @ chk @ '']'' @ nl)"
    unfolding is_header_iff by blast
next
  assume "is_header l"
  then obtain path d1 d2 s sev msg chk nl where
    l: "l = path @ '':'' @ d1 @ '':'' @ d2 @ '':'' @ [s] @ sev @ '':'' @ msg @ ''['' @ chk @ '']'' @ nl"
    and nl: "nl = [] \<or> nl = [NL]"
    unfolding is_header_iff by blast
  let ?b = "path @ '':'' @ d1 @ '':'' @ d2 @ '':'' @ [s] @ sev @ '':'' @ msg @ ''['' @ chk"
  have "l = ?b @ '']'' \<or> l = ?b @ '']'' @ [NL]" using l nl by auto
  then show "\<exists>b. l = b @ '']'' \<or> l = b @ '']'' @ [NL]" by blast
qed

theorem header_line_shape_witness:
  "is_header (''/src/file.cpp:12:5: error: bad thing [check-y]'' @ [NL])"
proof -
  have "NL \<notin> set ''/src/file.cpp'' \<and> ''12'' \<noteq> [] \<and> list_all is_digit ''12'' \<and> ''5'' \<noteq> [] \<and>
    list_all is_digit ''5'' \<and> is_space CHR '' '' \<and> ''error'' \<noteq> [] \<and> list_all is_word ''error'' \<and>
    NL \<notin> set '' bad thing '' \<and> NL \<notin> set ''check-y'' \<and> ([NL] = [] \<or> [NL] = [NL])"
    by (simp add: NL_def is_digit_def is_space_def is_word_def)
  with header_line_shape[of "''/src/file.cpp''" "''12''" "''5''" "CHR '' ''" "''error''"
      "'' bad thing ''" "''check-y''" "[NL]"]
  have "is_header (''/src/file.cpp'' @ '':'' @ ''12'' @ '':'' @ ''5'' @ '':'' @ [CHR '' ''] @ ''error''
      @ '':'' @ '' bad thing '' @ ''['' @ ''check-y'' @ '']'' @ [NL])"
    by blast
  then show ?thesis by simp
qed

text \<open>A line of the form of the claim with a blank or a tab after the closing bracket is
  not a header line.\<close>

theorem header_needs_closing_bracket_last:
  "\<not> is_header ''a.cpp:1:2: warning: x [c] '' \<and>
   \<not> is_header (''a.cpp:1:2: warning: x [c] '' @ [NL]) \<and>
   \<not> is_header (''a.cpp:1:2: warning: x [c]'' @ [CHR 0x09]) \<and>
   is_header ''a.cpp:1:2: warning: x [c]''"
  by code_simp

section \<open>Construction of a notification\<close>

text \<open>
  Claim C5. The first two segments of the split are joined again with a colon exactly
  when \<^verbatim>\<open>sys.platform\<close> starts with \<^verbatim>\<open>win32\<close> and the split has more than five
  segments; on another platform, or with five segments or fewer, the split is used as it
  is.
\<close>

theorem drive_letter_merge_iff:
  "(startswith (platform e) ''win32'' \<and> 5 < length (split_on CHR '':'' l) \<longrightarrow>
      sliced_line e l =
        (split_on CHR '':'' l ! 0 @ '':'' @ split_on CHR '':'' l ! 1) # drop 2 (split_on CHR '':'' l)) \<and>
   (\<not> (startswith (platform e) ''win32'' \<and> 5 < length (split_on CHR '':'' l)) \<longrightarrow>
      sliced_line e l = split_on CHR '':'' l)"
  by (simp add: sliced_line_def Let_def)

theorem drive_letter_merge_iff_witness:
  "startswith (platform windows_env) ''win32'' \<and>
   5 < length (split_on CHR '':'' (''C:'' @ [CHR 0x5C] @ ''src'' @ [CHR 0x5C] @ ''file.cpp:12:5: warning: unused variable [check-x]'')) \<and>
   sliced_line windows_env (''C:'' @ [CHR 0x5C] @ ''src'' @ [CHR 0x5C] @ ''file.cpp:12:5: warning: unused variable [check-x]'') =
     [''C:'' @ [CHR 0x5C] @ ''src'' @ [CHR 0x5C] @ ''file.cpp'', ''12'', ''5'', '' warning'', '' unused variable [check-x]''] \<and>
   \<not> startswith (platform linux_env) ''win32'' \<and>
   sliced_line linux_env ''/src/file.cpp:12:5: error: bad thing [check-y]'' =
     [''/src/file.cpp'', ''12'', ''5'', '' error'', '' bad thing [check-y]''] \<and>
   length (split_on CHR '':'' ''file.cpp:12:5: warning: unused variable [check-x]'') = 5 \<and>
   sliced_line windows_env ''file.cpp:12:5: warning: unused variable [check-x]'' =
     [''file.cpp'', ''12'', ''5'', '' warning'', '' unused variable [check-x]'']"
  using drive_letter_merge_iff [of windows_env "''C:'' @ [CHR 0x5C] @ ''src'' @ [CHR 0x5C] @ ''file.cpp:12:5: warning: unused variable [check-x]''"]
    drive_letter_merge_iff [of linux_env "''/src/file.cpp:12:5: error: bad thing [check-y]''"]
    drive_letter_merge_iff [of windows_env "''file.cpp:12:5: warning: unused variable [check-x]''"]
  by (simp add: windows_env_def linux_env_def startswith_def)

lemma upto_last_close_line:
  assumes "NL \<notin> set t" "nl = [] \<or> nl = [NL]"
  shows "upto_last_close (t @ '']'' @ nl) = Some (t @ '']'')"
proof -
  have "takeWhile (\<lambda>c. c \<noteq> NL) ((t @ '']'') @ nl) = t @ '']''"
  proof -
    have a: "\<forall>c\<in>set (t @ '']''). c \<noteq> NL" using assms(1) by (auto simp: NL_def)
    from assms(2) show ?thesis
    proof
      assume "nl = []"
      then show ?thesis using a by simp
    next
      assume "nl = [NL]"
      then have "takeWhile (\<lambda>c. c \<noteq> NL) ((t @ '']'') @ nl) = takeWhile (\<lambda>c. c \<noteq> NL) (t @ '']'')"
        using takeWhile_stop[of "\<lambda>c. c \<noteq> NL" NL "t @ '']''" "[]"] by simp
      then show ?thesis using a by simp
    qed
  qed
  then have "takeWhile (\<lambda>c. c \<noteq> NL) (t @ '']'' @ nl) = t @ '']''" by simp
  then show ?thesis by (simp add: upto_last_close_def)
qed

lemma search_bracket_line:
  assumes "NL \<notin> set t" "nl = [] \<or> nl = [NL]"
  shows "search_bracket (t @ '']'' @ nl) =
           (if CHR ''['' \<in> set t then Some (dropWhile (\<lambda>c. c \<noteq> CHR ''['') t @ '']'') else None)"
  using assms(1)
proof (induction t)
  case Nil
  from assms(2) show ?case by (auto simp: NL_def)
next
  case (Cons x xs)
  then have "NL \<notin> set xs" by simp
  then have u: "upto_last_close (xs @ '']'' @ nl) = Some (xs @ '']'')"
    using assms(2) by (rule upto_last_close_line)
  show ?case
  proof (cases "x = CHR ''[''")
    case True
    then show ?thesis using u by simp
  next
    case False
    then show ?thesis using Cons.IH \<open>NL \<notin> set xs\<close> by simp
  qed
qed

lemma header_last_segment:
  assumes "is_header l"
  shows "\<exists>t nl. last (split_on CHR '':'' l) = t @ '']'' @ nl \<and> NL \<notin> set t \<and> (nl = [] \<or> nl = [NL])"
proof -
  from assms obtain path d1 d2 s sev msg chk nl where
    l: "l = path @ '':'' @ d1 @ '':'' @ d2 @ '':'' @ [s] @ sev @ '':'' @ msg @ ''['' @ chk @ '']'' @ nl"
    and p: "NL \<notin> set msg" "NL \<notin> set chk" and nl: "nl = [] \<or> nl = [NL]"
    unfolding is_header_iff by blast
  let ?x = "path @ '':'' @ d1 @ '':'' @ d2 @ '':'' @ [s] @ sev"
  let ?z = "msg @ ''['' @ chk"
  have nlc: "\<forall>c\<in>set (rev nl @ '']''). c \<noteq> CHR '':''" using nl by (auto simp: NL_def)
  have "takeWhile (\<lambda>c. c \<noteq> CHR '':'') ((rev nl @ '']'') @ (rev ?z @ CHR '':'' # rev ?x)) =
      (rev nl @ '']'') @ takeWhile (\<lambda>c. c \<noteq> CHR '':'') (rev ?z @ CHR '':'' # rev ?x)"
    using nlc by (intro takeWhile_append2) blast
  moreover have "rev l = (rev nl @ '']'') @ (rev ?z @ CHR '':'' # rev ?x)"
    using l by simp
  ultimately have "takeWhile (\<lambda>c. c \<noteq> CHR '':'') (rev l) =
      (rev nl @ '']'') @ takeWhile (\<lambda>c. c \<noteq> CHR '':'') (rev ?z @ CHR '':'' # rev ?x)"
    by (simp only:)
  also have "takeWhile (\<lambda>c. c \<noteq> CHR '':'') (rev ?z @ CHR '':'' # rev ?x) =
      takeWhile (\<lambda>c. c \<noteq> CHR '':'') (rev ?z)"
    by (rule takeWhile_stop) simp
  finally have "last (split_on CHR '':'' l) =
      rev (takeWhile (\<lambda>c. c \<noteq> CHR '':'') (rev ?z)) @ '']'' @ nl"
    by (simp add: last_split_on)
  moreover have "NL \<notin> set (rev (takeWhile (\<lambda>c. c \<noteq> CHR '':'') (rev ?z)))"
  proof
    assume "NL \<in> set (rev (takeWhile (\<lambda>c. c \<noteq> CHR '':'') (rev ?z)))"
    then have "NL \<in> set (takeWhile (\<lambda>c. c \<noteq> CHR '':'') (rev ?z))" by simp
    then have "NL \<in> set (rev ?z)" by (rule set_takeWhileD[THEN conjunct1])
    then show False using p by (auto simp: NL_def)
  qed
  ultimately show ?thesis using nl by blast
qed

lemma split_on_fields:
  assumes "CHR '':'' \<notin> set a" "CHR '':'' \<notin> set b" "CHR '':'' \<notin> set c" "CHR '':'' \<notin> set d"
  shows "split_on CHR '':'' (f @ '':'' @ a @ '':'' @ b @ '':'' @ c @ '':'' @ d) =
           split_on CHR '':'' f @ [a, b, c, d]"
proof -
  have "split_on CHR '':'' (f @ CHR '':'' # a @ CHR '':'' # b @ CHR '':'' # c @ CHR '':'' # d) =
      split_on CHR '':'' f @ [a, b, c, d]"
    by (simp add: split_on_append split_on_free assms)
  then show ?thesis by simp
qed

lemma sliced_line_fields:
  assumes "CHR '':'' \<notin> set a" "CHR '':'' \<notin> set b" "CHR '':'' \<notin> set c" "CHR '':'' \<notin> set d"
    and "count_list f CHR '':'' \<le> 1"
    and "\<not> startswith (platform e) ''win32'' \<Longrightarrow> CHR '':'' \<notin> set f"
  shows "sliced_line e (f @ '':'' @ a @ '':'' @ b @ '':'' @ c @ '':'' @ d) = [f, a, b, c, d]"
proof -
  let ?l = "f @ '':'' @ a @ '':'' @ b @ '':'' @ c @ '':'' @ d"
  have sp: "split_on CHR '':'' ?l = split_on CHR '':'' f @ [a, b, c, d]"
    using assms(1-4) by (rule split_on_fields)
  show ?thesis
  proof (cases "CHR '':'' \<in> set f")
    case False
    then have "split_on CHR '':'' ?l = [f, a, b, c, d]"
      using sp by (simp add: split_on_free)
    then show ?thesis by (simp add: sliced_line_def Let_def)
  next
    case True
    then have w: "startswith (platform e) ''win32''" using assms(6) by blast
    have "count_list f CHR '':'' = 1"
      using True assms(5) by (metis count_list_0_iff le_neq_implies_less less_one)
    then have "length (split_on CHR '':'' f) = 2" by (simp add: length_split_on)
    then obtain f0 f1 where f: "split_on CHR '':'' f = [f0, f1]"
      by (auto simp: length_Suc_conv numeral_2_eq_2)
    then have "f = f0 @ CHR '':'' # f1" by (rule split_on_two)
    then show ?thesis using sp f w by (simp add: sliced_line_def Let_def)
  qed
qed

lemma sliced_line_five:
  assumes "length (sliced_line e l) = 5"
  shows "CHR '':'' \<notin> set (sliced_line e l ! 1) \<and> CHR '':'' \<notin> set (sliced_line e l ! 2) \<and>
         CHR '':'' \<notin> set (sliced_line e l ! 3) \<and> CHR '':'' \<notin> set (sliced_line e l ! 4) \<and>
         sliced_line e l ! 4 = last (split_on CHR '':'' l) \<and>
         count_list (sliced_line e l ! 0) CHR '':'' \<le> 1 \<and>
         (\<not> startswith (platform e) ''win32'' \<longrightarrow> CHR '':'' \<notin> set (sliced_line e l ! 0))"
proof (cases "startswith (platform e) ''win32'' \<and> 5 < length (split_on CHR '':'' l)")
  case True
  then have s: "sliced_line e l =
      (split_on CHR '':'' l ! 0 @ '':'' @ split_on CHR '':'' l ! 1) # drop 2 (split_on CHR '':'' l)"
    by (simp add: sliced_line_def Let_def)
  then have "length (split_on CHR '':'' l) = 6" using assms by simp
  then obtain a b c d f g where sp: "split_on CHR '':'' l = [a, b, c, d, f, g]"
    by (auto simp: length_Suc_conv eval_nat_numeral)
  have "\<forall>x\<in>set [a, b, c, d, f, g]. CHR '':'' \<notin> set x"
    using split_on_segments[of _ "CHR '':''" l] sp by metis
  then show ?thesis using True s sp by (simp add: count_list_0_iff[THEN iffD2])
next
  case False
  then have s: "sliced_line e l = split_on CHR '':'' l"
    by (auto simp: sliced_line_def Let_def)
  then obtain a b c d f where sp: "split_on CHR '':'' l = [a, b, c, d, f]"
    using assms by (auto simp: length_Suc_conv eval_nat_numeral)
  have "\<forall>x\<in>set [a, b, c, d, f]. CHR '':'' \<notin> set x"
    using split_on_segments[of _ "CHR '':''" l] sp by metis
  then show ?thesis using s sp by (simp add: count_list_0_iff[THEN iffD2])
qed

lemma init_success:
  assumes "TidyNotification_init e l = Inr n"
  shows "length (sliced_line e l) = 5 \<and>
         (\<exists>d. search_bracket (sliced_line e l ! 4) = Some d \<and>
              py_int (sliced_line e l ! 1) = Inr (line n) \<and>
              py_int (sliced_line e l ! 2) = Inr (cols n) \<and>
              diagnostic n = butlast (tl d) \<and>
              filename n = remove_all (cwd e @ sep e) (sliced_line e l ! 0) \<and>
              note_type n = strip (sliced_line e l ! 3) \<and>
              note_info n = strip (remove_all d (sliced_line e l ! 4)) \<and>
              fixit_lines n = [] \<and> TidyNotification.more n = ())"
  using assms
  by (auto simp: TidyNotification_init_def Let_def split: if_splits option.splits sum.splits)

lemma init_fields:
  assumes "sliced_line e l = [f, a, b, c, m]" "search_bracket m = Some d"
    "py_int a = Inr i" "py_int b = Inr j"
  shows "TidyNotification_init e l =
           Inr \<lparr> diagnostic = butlast (tl d), filename = remove_all (cwd e @ sep e) f,
                 line = i, cols = j, note_type = strip c, note_info = strip (remove_all d m),
                 fixit_lines = [] \<rparr>"
  using assms by (simp add: TidyNotification_init_def Let_def)

text \<open>The bracket match of the message of a header line.\<close>

lemma header_message:
  assumes h: "is_header l" and len: "length (sliced_line e l) = 5"
    and sb: "search_bracket (sliced_line e l ! 4) = Some d"
  shows "\<exists>p k nl. sliced_line e l ! 4 = p @ d @ nl \<and> d = ''['' @ k @ '']'' \<and>
           CHR ''['' \<notin> set p \<and> NL \<notin> set p \<and> NL \<notin> set k \<and> (nl = [] \<or> nl = [NL])"
proof -
  from header_last_segment[OF h] obtain t nl where
    t: "last (split_on CHR '':'' l) = t @ '']'' @ nl" "NL \<notin> set t" and nl: "nl = [] \<or> nl = [NL]"
    by blast
  have m: "sliced_line e l ! 4 = t @ '']'' @ nl"
    using sliced_line_five[OF len] t by simp
  have s: "search_bracket (t @ '']'' @ nl) =
      (if CHR ''['' \<in> set t then Some (dropWhile (\<lambda>c. c \<noteq> CHR ''['') t @ '']'') else None)"
    using t(2) nl by (rule search_bracket_line)
  from sb m s have in_t: "CHR ''['' \<in> set t" and d: "d = dropWhile (\<lambda>c. c \<noteq> CHR ''['') t @ '']''"
    by (auto split: if_splits)
  let ?p = "takeWhile (\<lambda>c. c \<noteq> CHR ''['') t"
  let ?q = "dropWhile (\<lambda>c. c \<noteq> CHR ''['') t"
  have q: "?q \<noteq> []" using in_t by simp
  then have "hd ?q = CHR ''[''" using hd_dropWhile[of "\<lambda>c. c \<noteq> CHR ''[''" t] by simp
  then obtain k where k: "?q = CHR ''['' # k" using q by (cases ?q) auto
  have tq: "t = ?p @ ?q" by simp
  have "set k \<subseteq> set t" using k set_dropWhileD[of _ "\<lambda>c. c \<noteq> CHR ''[''" t] by auto
  then have nk: "NL \<notin> set k" using t(2) by blast
  have "set ?p \<subseteq> set t" using set_takeWhileD[of _ "\<lambda>c. c \<noteq> CHR ''[''" t] by blast
  then have np: "NL \<notin> set ?p" using t(2) by blast
  have bp: "CHR ''['' \<notin> set ?p" using set_takeWhileD[of "CHR ''[''" "\<lambda>c. c \<noteq> CHR ''[''" t] by blast
  have "sliced_line e l ! 4 = ?p @ d @ nl"
    unfolding m d using tq by (metis append.assoc)
  moreover have "d = ''['' @ k @ '']''" using d k by simp
  ultimately show ?thesis using bp np nk nl by blast
qed

lemma is_space_NL: "is_space NL"
  by (simp add: is_space_def NL_def)

text \<open>
  Claim C2. The claim takes the check id from the last bracket pair of the header line.
  The search \<^verbatim>\<open>\[.*\]\<close> is greedy from the first opening bracket of the message, so
  for a message with brackets of its own the constructor returns everything between the
  first \<^verbatim>\<open>[\<close> of the message and the last \<^verbatim>\<open>]\<close> of the line: here the check
  id is \<^verbatim>\<open>0] bad [check-x\<close> and not \<^verbatim>\<open>check-x\<close>, and the message is cut at the
  first bracket.
\<close>

theorem check_id_greedy_match:
  "is_header (''a.cpp:1:2: warning: x[0] bad [check-x]'' @ [NL]) \<and>
   TidyNotification_init linux_env (''a.cpp:1:2: warning: x[0] bad [check-x]'' @ [NL]) =
     Inr \<lparr> diagnostic = ''0] bad [check-x'', filename = ''a.cpp'', line = 1, cols = 2,
           note_type = ''warning'', note_info = ''x'', fixit_lines = [] \<rparr>"
  by code_simp

lemma takeWhile_upto: "c \<notin> set p \<Longrightarrow> takeWhile (\<lambda>x. x \<noteq> c) (p @ c # r) = p"
  by (induction p) auto

lemma bracket_prefix_unique:
  assumes "p @ CHR ''['' # r = q @ CHR ''['' # s" "CHR ''['' \<notin> set p" "CHR ''['' \<notin> set q"
  shows "p = q \<and> r = s"
proof -
  have "takeWhile (\<lambda>c. c \<noteq> CHR ''['') (p @ CHR ''['' # r) = p"
    using assms(2) by (rule takeWhile_upto)
  moreover have "takeWhile (\<lambda>c. c \<noteq> CHR ''['') (q @ CHR ''['' # s) = q"
    using assms(3) by (rule takeWhile_upto)
  ultimately have "p = q" using assms(1) by simp
  then show ?thesis using assms(1) by simp
qed

text \<open>
  Claim C6, as amended. The check id of the record made from a header line is empty
  exactly when the first opening bracket of the message is directly followed by the
  closing bracket that ends the line, that is when the bracket segment is \<^verbatim>\<open>[]\<close>;
  in every other case it is not empty.
\<close>

theorem check_id_empty_iff:
  assumes "is_header l" and "TidyNotification_init e l = Inr n"
  shows "diagnostic n = [] \<longleftrightarrow>
           (\<exists>p nl. sliced_line e l ! 4 = p @ ''[]'' @ nl \<and> CHR ''['' \<notin> set p \<and> (nl = [] \<or> nl = [NL]))"
proof -
  from init_success[OF assms(2)] obtain d where
    len: "length (sliced_line e l) = 5" and sb: "search_bracket (sliced_line e l ! 4) = Some d"
    and dg: "diagnostic n = butlast (tl d)"
    by blast
  from header_message[OF assms(1) len sb] obtain p k nl where
    m: "sliced_line e l ! 4 = p @ d @ nl" and d: "d = ''['' @ k @ '']''"
    and bp: "CHR ''['' \<notin> set p" and nl: "nl = [] \<or> nl = [NL]"
    by blast
  have dk: "diagnostic n = k" using dg d by simp
  show ?thesis
  proof
    assume "diagnostic n = []"
    then have "sliced_line e l ! 4 = p @ ''[]'' @ nl" using m d dk by simp
    then show "\<exists>p nl. sliced_line e l ! 4 = p @ ''[]'' @ nl \<and> CHR ''['' \<notin> set p \<and> (nl = [] \<or> nl = [NL])"
      using bp nl by blast
  next
    assume "\<exists>p nl. sliced_line e l ! 4 = p @ ''[]'' @ nl \<and> CHR ''['' \<notin> set p \<and> (nl = [] \<or> nl = [NL])"
    then obtain q nl' where q: "sliced_line e l ! 4 = q @ ''[]'' @ nl'" "CHR ''['' \<notin> set q"
      and nl': "nl' = [] \<or> nl' = [NL]" by blast
    have "p @ CHR ''['' # (k @ '']'' @ nl) = q @ CHR ''['' # ('']'' @ nl')"
      using m d q(1) by simp
    then have e: "k @ '']'' @ nl = '']'' @ nl'"
      using bp q(2) bracket_prefix_unique by blast
    show "diagnostic n = []"
    proof (cases k)
      case Nil
      then show ?thesis using dk by simp
    next
      case (Cons x xs)
      then have "nl' = xs @ '']'' @ nl" using e by simp
      then have "CHR '']'' \<in> set nl'" by simp
      then show ?thesis using nl' by (auto simp: NL_def)
    qed
  qed
qed

theorem check_id_empty_iff_witness:
  "is_header (''a.cpp:1:2: warning: x [c]'' @ [NL]) \<and>
   TidyNotification_init linux_env (''a.cpp:1:2: warning: x [c]'' @ [NL]) =
     Inr \<lparr> diagnostic = ''c'', filename = ''a.cpp'', line = 1, cols = 2, note_type = ''warning'',
           note_info = ''x'', fixit_lines = [] \<rparr> \<and>
   \<not> (\<exists>p nl. sliced_line linux_env (''a.cpp:1:2: warning: x [c]'' @ [NL]) ! 4 = p @ ''[]'' @ nl \<and>
          CHR ''['' \<notin> set p \<and> (nl = [] \<or> nl = [NL]))"
proof -
  have h: "is_header (''a.cpp:1:2: warning: x [c]'' @ [NL])"
    by code_simp
  have i: "TidyNotification_init linux_env (''a.cpp:1:2: warning: x [c]'' @ [NL]) =
     Inr \<lparr> diagnostic = ''c'', filename = ''a.cpp'', line = 1, cols = 2, note_type = ''warning'',
           note_info = ''x'', fixit_lines = [] \<rparr>"
    by code_simp
  from check_id_empty_iff[OF h i] h i show ?thesis by simp
qed

text \<open>A header line with an empty pair of brackets gives a record with an empty check
  id.\<close>

theorem check_id_can_be_empty:
  "is_header (''a.cpp:1:2: warning: x []'' @ [NL]) \<and>
   TidyNotification_init linux_env (''a.cpp:1:2: warning: x []'' @ [NL]) =
     Inr \<lparr> diagnostic = [], filename = ''a.cpp'', line = 1, cols = 2, note_type = ''warning'',
           note_info = ''x'', fixit_lines = [] \<rparr>"
  by code_simp

text \<open>
  Claim C10, as amended. The file name of a record is the first segment with the
  occurrences of \<^verbatim>\<open>os.getcwd() + os.sep\<close> deleted that \<^verbatim>\<open>str.replace\<close> finds, from
  left to right and without overlap, wherever they are and not only at the start: up to
  the first occurrence the segment is kept, that occurrence is dropped, whether it stands
  at the start or in the middle, and the rest is treated in the same way; a segment
  without occurrence is unchanged. An occurrence that overlaps a deleted one is not
  deleted, and the result can contain the prefix again, so a file name that begins with
  the prefix need not become relative.
\<close>

theorem filename_every_occurrence_removed:
  "TidyNotification_init e l = Inr n \<longrightarrow>
     filename n = remove_all (cwd e @ sep e) (sliced_line e l ! 0) \<and>
     (cwd e @ sep e \<noteq> [] \<and> sliced_line e l ! 0 = a @ (cwd e @ sep e) @ b \<and>
      (\<forall>i<length a. \<not> occurs_at (cwd e @ sep e) (sliced_line e l ! 0) i) \<longrightarrow>
        filename n = a @ remove_all (cwd e @ sep e) b) \<and>
     ((\<forall>i<length (sliced_line e l ! 0). \<not> occurs_at (cwd e @ sep e) (sliced_line e l ! 0) i) \<longrightarrow>
        filename n = sliced_line e l ! 0)"
proof (intro impI conjI)
  assume i: "TidyNotification_init e l = Inr n"
  then show f: "filename n = remove_all (cwd e @ sep e) (sliced_line e l ! 0)"
    using init_success by blast
  { assume h: "cwd e @ sep e \<noteq> [] \<and> sliced_line e l ! 0 = a @ (cwd e @ sep e) @ b \<and>
      (\<forall>i<length a. \<not> occurs_at (cwd e @ sep e) (sliced_line e l ! 0) i)"
    then have ne: "cwd e @ sep e \<noteq> []" and eq: "sliced_line e l ! 0 = a @ (cwd e @ sep e) @ b"
      and "\<forall>i<length a. \<not> occurs_at (cwd e @ sep e) (sliced_line e l ! 0) i"
      by blast+
    then have "\<forall>i<length a. \<not> occurs_at (cwd e @ sep e) (a @ (cwd e @ sep e) @ b) i"
      by (simp only:)
    with ne have "remove_all (cwd e @ sep e) (a @ (cwd e @ sep e) @ b) =
        a @ remove_all (cwd e @ sep e) b"
      by (rule remove_all_first_occurrence)
    then show "filename n = a @ remove_all (cwd e @ sep e) b"
      using f eq by (simp only:) }
  { assume "\<forall>i<length (sliced_line e l ! 0). \<not> occurs_at (cwd e @ sep e) (sliced_line e l ! 0) i"
    then show "filename n = sliced_line e l ! 0"
      using f remove_all_no_occurrence by simp }
qed

theorem filename_every_occurrence_removed_witness:
  "TidyNotification_init linux_env (''/x/w/y.cpp:1:2: warning: m [c]'' @ [NL]) =
     Inr \<lparr> diagnostic = ''c'', filename = ''/xy.cpp'', line = 1, cols = 2, note_type = ''warning'',
           note_info = ''m'', fixit_lines = [] \<rparr> \<and>
   sliced_line linux_env (''/x/w/y.cpp:1:2: warning: m [c]'' @ [NL]) ! 0 =
     ''/x'' @ (cwd linux_env @ sep linux_env) @ ''y.cpp'' \<and>
   ''/xy.cpp'' = ''/x'' @ remove_all (cwd linux_env @ sep linux_env) ''y.cpp'' \<and>
   TidyNotification_init linux_env (''/w/src/file.cpp:1:2: warning: m [c]'' @ [NL]) =
     Inr \<lparr> diagnostic = ''c'', filename = ''src/file.cpp'', line = 1, cols = 2, note_type = ''warning'',
           note_info = ''m'', fixit_lines = [] \<rparr> \<and>
   ''src/file.cpp'' = [] @ remove_all (cwd linux_env @ sep linux_env) ''src/file.cpp''"
proof -
  let ?l = "''/x/w/y.cpp:1:2: warning: m [c]'' @ [NL]"
  let ?n = "\<lparr> diagnostic = ''c'', filename = ''/xy.cpp'', line = 1, cols = 2, note_type = ''warning'',
           note_info = ''m'', fixit_lines = [] \<rparr>"
  let ?l' = "''/w/src/file.cpp:1:2: warning: m [c]'' @ [NL]"
  let ?n' = "\<lparr> diagnostic = ''c'', filename = ''src/file.cpp'', line = 1, cols = 2, note_type = ''warning'',
           note_info = ''m'', fixit_lines = [] \<rparr>"
  have i: "TidyNotification_init linux_env ?l = Inr ?n"
    by code_simp
  have ne: "cwd linux_env @ sep linux_env \<noteq> []"
    by code_simp
  have s: "sliced_line linux_env ?l ! 0 = ''/x'' @ (cwd linux_env @ sep linux_env) @ ''y.cpp''"
    by code_simp
  have o0: "\<not> occurs_at (cwd linux_env @ sep linux_env) (sliced_line linux_env ?l ! 0) 0"
    by code_simp
  have o1: "\<not> occurs_at (cwd linux_env @ sep linux_env) (sliced_line linux_env ?l ! 0) (Suc 0)"
    by code_simp
  have o: "\<forall>i<length ''/x''. \<not> occurs_at (cwd linux_env @ sep linux_env) (sliced_line linux_env ?l ! 0) i"
    using o0 o1 by (auto simp: less_Suc_eq)
  have i': "TidyNotification_init linux_env ?l' = Inr ?n'"
    by code_simp
  have s': "sliced_line linux_env ?l' ! 0 = [] @ (cwd linux_env @ sep linux_env) @ ''src/file.cpp''"
    by code_simp
  from filename_every_occurrence_removed[of linux_env ?l ?n "''/x''" "''y.cpp''"] i ne s o
  have 1: "filename ?n = ''/x'' @ remove_all (cwd linux_env @ sep linux_env) ''y.cpp''"
    by blast
  from filename_every_occurrence_removed[of linux_env ?l' ?n' "[]" "''src/file.cpp''"] i' ne s'
  have 2: "filename ?n' = [] @ remove_all (cwd linux_env @ sep linux_env) ''src/file.cpp''"
    by simp
  from i s 1 i' 2 show ?thesis by simp
qed

text \<open>Occurrences that are not deleted: one that overlaps the leading occurrence, one that
  the deletion brings about, and a leading prefix whose removal leaves an absolute path.\<close>

theorem filename_occurrence_survives:
  "occurs_at (cwd linux_env @ sep linux_env) ''/w/w/x.cpp'' 2 \<and>
   TidyNotification_init linux_env (''/w/w/x.cpp:1:2: warning: m [c]'' @ [NL]) =
     Inr \<lparr> diagnostic = ''c'', filename = ''w/x.cpp'', line = 1, cols = 2, note_type = ''warning'',
           note_info = ''m'', fixit_lines = [] \<rparr> \<and>
   TidyNotification_init linux_env (''/x//w/w/y.cpp:1:2: warning: m [c]'' @ [NL]) =
     Inr \<lparr> diagnostic = ''c'', filename = ''/x/w/y.cpp'', line = 1, cols = 2, note_type = ''warning'',
           note_info = ''m'', fixit_lines = [] \<rparr> \<and>
   occurs_at (cwd linux_env @ sep linux_env) ''/x/w/y.cpp'' 2 \<and>
   TidyNotification_init linux_env (''/w//abs.cpp:1:2: warning: m [c]'' @ [NL]) =
     Inr \<lparr> diagnostic = ''c'', filename = ''/abs.cpp'', line = 1, cols = 2, note_type = ''warning'',
           note_info = ''m'', fixit_lines = [] \<rparr>"
  by code_simp

lemma header_split:
  assumes "is_header l"
  shows "\<exists>path d1 d2 s sev m.
           split_on CHR '':'' l =
             split_on CHR '':'' path @ [d1, d2, s # sev] @ split_on CHR '':'' m \<and>
           NL \<notin> set path \<and> d1 \<noteq> [] \<and> list_all is_digit d1 \<and> d2 \<noteq> [] \<and>
           list_all is_digit d2 \<and> is_space s \<and> sev \<noteq> [] \<and>
           list_all is_word sev \<and> NL \<notin> set (butlast m)"
proof -
  from assms obtain path d1 d2 s sev msg chk nl where
    l: "l = path @ '':'' @ d1 @ '':'' @ d2 @ '':'' @ [s] @ sev @ '':'' @ msg @ ''['' @ chk @ '']'' @ nl"
    and p: "NL \<notin> set path" "list_all is_digit d1" "list_all is_digit d2" "is_space s"
      "sev \<noteq> []" "list_all is_word sev" "NL \<notin> set msg" "NL \<notin> set chk"
    and ne: "d1 \<noteq> []" "d2 \<noteq> []"
    and nl: "nl = [] \<or> nl = [NL]"
    unfolding is_header_iff by blast
  let ?m = "msg @ ''['' @ chk @ '']'' @ nl"
  have c1: "CHR '':'' \<notin> set d1" "CHR '':'' \<notin> set d2"
    using p(2,3) digit_no_colon by (auto simp: list_all_iff)
  have c3: "CHR '':'' \<notin> set (s # sev)"
    using p(4,6) word_no_colon space_no_colon by (auto simp: list_all_iff)
  have "l = path @ CHR '':'' # (d1 @ CHR '':'' # (d2 @ CHR '':'' # ((s # sev) @ CHR '':'' # ?m)))"
    using l by simp
  then have "split_on CHR '':'' l =
      split_on CHR '':'' path @ split_on CHR '':'' d1 @ split_on CHR '':'' d2 @
      split_on CHR '':'' (s # sev) @ split_on CHR '':'' ?m"
    by (simp only: split_on_append)
  then have sp: "split_on CHR '':'' l =
      split_on CHR '':'' path @ [d1, d2, s # sev] @ split_on CHR '':'' ?m"
    by (simp only: split_on_free[OF c1(1)] split_on_free[OF c1(2)] split_on_free[OF c3] append.simps)
  have "butlast ?m = msg @ ''['' @ chk @ '']'' \<or> butlast ?m = msg @ ''['' @ chk"
    using nl by (auto simp: butlast_append)
  then have "NL \<notin> set (butlast ?m)" using p(7,8) by (auto simp: NL_def)
  then show ?thesis using sp p ne by blast
qed

lemma strip_space_word:
  assumes "is_space s" "sev \<noteq> []" "list_all is_word sev"
  shows "strip (s # sev) = sev"
proof -
  have "\<not> is_space (hd sev)" "\<not> is_space (last sev)"
    using assms(2,3) word_no_space by (auto simp: list_all_iff)
  then have "strip ([s] @ sev @ []) = sev"
    using assms(1,2) by (intro strip_core) auto
  then show ?thesis by simp
qed

lemma split_first_of_two:
  assumes "split_on d m = [a, b]"
  shows "set a \<subseteq> set (butlast m)"
proof -
  have "m = a @ d # b" using assms by (rule split_on_two)
  then show ?thesis by (cases b rule: rev_cases) (auto simp: butlast_append)
qed



lemma py_int_digits:
  assumes "d \<noteq> []" "list_all is_digit d"
  shows "\<exists>k. py_int d = Inr (int k)"
proof -
  have all: "\<forall>c\<in>set d. is_digit c" using assms(2) by (simp add: list_all_iff)
  obtain c cs where d: "d = c # cs" using assms(1) by (cases d) auto
  have "is_digit (hd d)" "is_digit (last d)" using all assms(1) by simp_all
  then have "trim is_int_space ([] @ d @ []) = d"
    using assms(1) digit_not_space by (intro trim_core) auto
  then have t: "trim is_int_space d = c # cs" using d by simp
  have c: "is_digit c" using all d by simp
  have "int_body 0 False (c # cs) = Some (foldl (\<lambda>v c. 10 * v + digit_val c) 0 (c # cs))"
    using int_body_digits[of "c # cs" 0 False] all d by simp
  then show ?thesis
    using t digit_not_space[OF c] by (simp add: py_int_def)
qed

lemma show_int_nonneg: "0 \<le> i \<Longrightarrow> show_int i \<noteq> [] \<and> list_all is_digit (show_int i)"
  using show_nat_digits[of "nat i"] show_nat_not_Nil[of "nat i"]
  by (simp add: show_int_def list_all_iff)

text \<open>The segments of a header line from which a record is made: either they are the
  path, the two numbers, the severity and the message, or, with the re-assembly of the
  path, the first colon of the message has been taken for the last separator.\<close>

lemma header_sliced_cases:
  assumes h: "is_header l" and len: "length (sliced_line e l) = 5"
  shows "(\<exists>path d1 d2 s sev y.
            sliced_line e l = [path, d1, d2, s # sev, y] \<and> NL \<notin> set path \<and>
            d1 \<noteq> [] \<and> list_all is_digit d1 \<and> d2 \<noteq> [] \<and> list_all is_digit d2 \<and>
            is_space s \<and> sev \<noteq> [] \<and> list_all is_word sev) \<or>
         (\<exists>f x y m0 m1.
            sliced_line e l = [f, x, y, m0, m1] \<and> NL \<notin> set f \<and> NL \<notin> set m0 \<and>
            length (split_on CHR '':'' l) = 6)"
proof -
  from header_split[OF h] obtain path d1 d2 s sev m where
    sp: "split_on CHR '':'' l = split_on CHR '':'' path @ [d1, d2, s # sev] @ split_on CHR '':'' m"
    and p: "NL \<notin> set path" "d1 \<noteq> []" "list_all is_digit d1" "d2 \<noteq> []" "list_all is_digit d2"
      "is_space s" "sev \<noteq> []" "list_all is_word sev" "NL \<notin> set (butlast m)"
    by blast
  let ?P = "split_on CHR '':'' path" and ?M = "split_on CHR '':'' m"
  have lp: "length ?P = Suc (count_list path CHR '':'')" by (rule length_split_on)
  have lm: "length ?M = Suc (count_list m CHR '':'')" by (rule length_split_on)
  show ?thesis
  proof (cases "startswith (platform e) ''win32'' \<and> 5 < length (split_on CHR '':'' l)")
    case False
    then have s: "sliced_line e l = split_on CHR '':'' l"
      by (auto simp: sliced_line_def Let_def)
    then have "length ?P + length ?M = 2" using len sp by simp
    then have l1: "length ?P = 1" "length ?M = 1" using lp lm by auto
    then obtain y where M: "?M = [y]"
      by (cases ?M) auto
    have "CHR '':'' \<notin> set path" using l1(1) lp by (simp add: count_list_0_iff)
    then have "?P = [path]" by (rule split_on_free)
    then have "sliced_line e l = [path, d1, d2, s # sev, y]"
      using s sp M by simp
    then show ?thesis using p by blast
  next
    case True
    then have s: "sliced_line e l =
        (split_on CHR '':'' l ! 0 @ '':'' @ split_on CHR '':'' l ! 1) # drop 2 (split_on CHR '':'' l)"
      by (simp add: sliced_line_def Let_def)
    then have l6: "length (split_on CHR '':'' l) = 6" using len by simp
    then have "length ?P + length ?M = 3" using sp by simp
    then have "count_list path CHR '':'' + count_list m CHR '':'' = 1" using lp lm by simp
    then consider "count_list path CHR '':'' = 1" "count_list m CHR '':'' = 0"
      | "count_list path CHR '':'' = 0" "count_list m CHR '':'' = 1"
      by linarith
    then show ?thesis
    proof cases
      case 1
      then have "length ?P = 2" "length ?M = 1" using lp lm by simp_all
      then obtain p0 p1 y where P: "?P = [p0, p1]" and M: "?M = [y]"
        by (auto simp: length_Suc_conv numeral_2_eq_2)
      have "path = p0 @ CHR '':'' # p1" using P by (rule split_on_two)
      then have "NL \<notin> set (p0 @ '':'' @ p1)" using p(1) by (auto simp: NL_def)
      moreover have "sliced_line e l = [p0 @ '':'' @ p1, d1, d2, s # sev, y]"
        using s sp P M by simp
      ultimately show ?thesis using p by blast
    next
      case 2
      then have "length ?M = 2" using lm by simp
      then obtain m0 m1 where M: "?M = [m0, m1]"
        by (auto simp: length_Suc_conv numeral_2_eq_2)
      have "CHR '':'' \<notin> set path" using 2(1) by (simp add: count_list_0_iff)
      then have P: "?P = [path]" by (rule split_on_free)
      have "set m0 \<subseteq> set (butlast m)" using M by (rule split_first_of_two)
      then have "NL \<notin> set m0" using p(9) by blast
      moreover have "sliced_line e l = [path @ '':'' @ d1, d2, s # sev, m0, m1]"
        using s sp P M by simp
      moreover have "NL \<notin> set (path @ '':'' @ d1)"
        using p(1,3) digit_no_colon by (auto simp: NL_def list_all_iff)
      ultimately show ?thesis using l6 by blast
    qed
  qed
qed

lemma init_header_of_fields:
  assumes h: "is_header l"
    and i: "TidyNotification_init e l = Inr n"
  shows "TidyNotification_init e (header_of_fields n) =
           Inr (n\<lparr>filename := remove_all (cwd e @ sep e) (filename n)\<rparr>)"
proof -
  let ?sl = "sliced_line e l"
  from init_success[OF i] obtain d where
    len: "length ?sl = 5" and sb: "search_bracket (?sl ! 4) = Some d"
    and li: "py_int (?sl ! 1) = Inr (line n)" and co: "py_int (?sl ! 2) = Inr (cols n)"
    and dg: "diagnostic n = butlast (tl d)"
    and fn: "filename n = remove_all (cwd e @ sep e) (?sl ! 0)"
    and nt: "note_type n = strip (?sl ! 3)"
    and ni: "note_info n = strip (remove_all d (?sl ! 4))"
    and fx: "fixit_lines n = []" and mo: "TidyNotification.more n = ()"
    by blast
  from sliced_line_five[OF len] have
    c3: "CHR '':'' \<notin> set (?sl ! 3)" and c4: "CHR '':'' \<notin> set (?sl ! 4)"
    and c0: "count_list (?sl ! 0) CHR '':'' \<le> 1"
    and w0: "\<not> startswith (platform e) ''win32'' \<Longrightarrow> CHR '':'' \<notin> set (?sl ! 0)"
    by blast+
  from header_message[OF h len sb] obtain p k nl where
    m: "?sl ! 4 = p @ d @ nl" and d: "d = ''['' @ k @ '']''"
    and bp: "CHR ''['' \<notin> set p" and np: "NL \<notin> set p" and nk: "NL \<notin> set k"
    and nl: "nl = [] \<or> nl = [NL]"
    by blast
  have dk: "diagnostic n = k" using dg d by simp
  have "remove_all d (p @ d @ nl) = p @ remove_all d nl"
    unfolding d using bp remove_all_first[of "CHR ''[''" p "k @ '']''" nl] by simp
  also have "remove_all d nl = nl"
    using nl d by (intro remove_all_short) auto
  finally have "note_info n = strip (p @ nl)" using ni m by simp
  also have "\<dots> = strip p"
    using nl is_space_NL by (intro strip_trailing) auto
  finally have nip: "note_info n = strip p" .
  have cp: "CHR '':'' \<notin> set p" "CHR '':'' \<notin> set k" using c4 m d by auto
  have cm: "CHR '':'' \<notin> set (strip p)" using cp set_strip[of p] by blast
  have cnt: "CHR '':'' \<notin> set (note_type n)" using c3 nt set_strip[of "?sl ! 3"] by auto
  let ?f = "filename n" and ?a = "show_int (line n)" and ?b = "show_int (cols n)"
  let ?c = "'' '' @ note_type n" and ?m = "'' '' @ strip p @ '' ['' @ k @ '']''"
  have hdr: "header_of_fields n = ?f @ '':'' @ ?a @ '':'' @ ?b @ '':'' @ ?c @ '':'' @ ?m"
    by (simp add: header_of_fields_def nip dk)
  have cf: "count_list ?f CHR '':'' \<le> 1"
    using c0 count_remove_all[of "cwd e @ sep e" "?sl ! 0" "CHR '':''"] fn by simp
  have wf: "\<not> startswith (platform e) ''win32'' \<Longrightarrow> CHR '':'' \<notin> set ?f"
    using w0 set_remove_all[of "cwd e @ sep e" "?sl ! 0"] fn by auto
  have sl': "sliced_line e (header_of_fields n) = [?f, ?a, ?b, ?c, ?m]"
    unfolding hdr
    using show_int_no_colon cf wf cnt cm cp by (intro sliced_line_fields) auto
  have bm: "CHR ''['' \<notin> set ('' '' @ strip p @ '' '')"
    using bp set_strip[of p] by auto
  have nm: "NL \<notin> set ('' '' @ strip p @ '' ['' @ k)"
    using np nk set_strip[of p] by (auto simp: NL_def)
  have "search_bracket (('' '' @ strip p @ '' ['' @ k) @ '']'' @ []) =
      (if CHR ''['' \<in> set ('' '' @ strip p @ '' ['' @ k)
       then Some (dropWhile (\<lambda>c. c \<noteq> CHR ''['') ('' '' @ strip p @ '' ['' @ k) @ '']'') else None)"
    using nm by (intro search_bracket_line) simp_all
  moreover have "dropWhile (\<lambda>c. c \<noteq> CHR ''['') (('' '' @ strip p @ '' '') @ ''['' @ k) = ''['' @ k"
    using bm by (subst dropWhile_append2) auto
  ultimately have sb': "search_bracket ?m = Some d"
    using d by simp
  have "remove_all d (('' '' @ strip p @ '' '') @ d @ []) = ('' '' @ strip p @ '' '') @ remove_all d []"
    unfolding d using bm remove_all_first[of "CHR ''[''" "'' '' @ strip p @ '' ''" "k @ '']''" "[]"]
    by simp
  then have "remove_all d ?m = '' '' @ strip p @ '' ''" using d by simp
  moreover have "strip ('' '' @ strip p @ '' '') = strip p"
    by (intro strip_padded) (simp_all add: is_space_def)
  ultimately have ni': "strip (remove_all d ?m) = note_info n" using nip by simp
  have nt': "strip ?c = note_type n"
    using strip_padded[of "'' ''" "[]" "?sl ! 3"] nt by (simp add: is_space_def)
  have "TidyNotification_init e (header_of_fields n) =
      Inr \<lparr> diagnostic = butlast (tl d), filename = remove_all (cwd e @ sep e) ?f,
            line = line n, cols = cols n, note_type = strip ?c,
            note_info = strip (remove_all d ?m), fixit_lines = [] \<rparr>"
    using sl' sb' py_int_show_int[of "line n"] py_int_show_int[of "cols n"] by (rule init_fields)
  then show ?thesis
    using dg nt' ni' fx mo by (cases n) simp
qed


lemma header_record_one_line:
  assumes h: "is_header l" and i: "TidyNotification_init e l = Inr n"
  shows "NL \<notin> set (filename n) \<and> NL \<notin> set (note_info n) \<and> NL \<notin> set (diagnostic n)"
proof -
  from init_success[OF i] obtain d where
    len: "length (sliced_line e l) = 5" and sb: "search_bracket (sliced_line e l ! 4) = Some d"
    and dg: "diagnostic n = butlast (tl d)"
    and fn: "filename n = remove_all (cwd e @ sep e) (sliced_line e l ! 0)"
    and ni: "note_info n = strip (remove_all d (sliced_line e l ! 4))"
    by blast
  from header_message[OF h len sb] obtain p k nl where
    m: "sliced_line e l ! 4 = p @ d @ nl" and d: "d = ''['' @ k @ '']''"
    and bp: "CHR ''['' \<notin> set p" and np: "NL \<notin> set p" and nk: "NL \<notin> set k"
    and nl: "nl = [] \<or> nl = [NL]"
    by blast
  have dk: "NL \<notin> set (diagnostic n)" using dg d nk by simp
  have "remove_all d (p @ d @ nl) = p @ remove_all d nl"
    unfolding d using bp remove_all_first[of "CHR ''[''" p "k @ '']''" nl] by simp
  also have "remove_all d nl = nl"
    using nl d by (intro remove_all_short) auto
  finally have "note_info n = strip (p @ nl)" using ni m by simp
  also have "\<dots> = strip p"
    using nl is_space_NL by (intro strip_trailing) auto
  finally have nn: "NL \<notin> set (note_info n)" using np set_strip[of p] by auto
  have "NL \<notin> set (sliced_line e l ! 0)"
    using header_sliced_cases[OF h len] by auto
  then have "NL \<notin> set (filename n)"
    using fn set_remove_all[of "cwd e @ sep e" "sliced_line e l ! 0"] by auto
  then show ?thesis using nn dk by simp
qed

lemma is_header_of_fields:
  assumes h: "is_header l" and i: "TidyNotification_init e l = Inr n"
    and pos: "0 \<le> line n" "0 \<le> cols n"
    and sev: "note_type n \<noteq> []" "list_all is_word (note_type n)"
  shows "is_header (header_of_fields n)"
proof -
  from header_record_one_line[OF h i] have
    one: "NL \<notin> set (filename n)" "NL \<notin> set (note_info n)" "NL \<notin> set (diagnostic n)"
    by simp_all
  have sp: "is_space CHR '' ''" by (simp add: is_space_def)
  have eq: "header_of_fields n =
      filename n @ '':'' @ show_int (line n) @ '':'' @ show_int (cols n) @ '':'' @ [CHR '' '']
      @ note_type n @ '':'' @ ('' '' @ note_info n @ '' '') @ ''['' @ diagnostic n @ '']'' @ []"
    by (simp add: header_of_fields_def)
  have m: "NL \<notin> set ('' '' @ note_info n @ '' '')" using one(2) by (simp add: NL_def)
  show ?thesis
    unfolding is_header_iff
    apply (rule exI[of _ "filename n"])
    apply (rule exI[of _ "show_int (line n)"])
    apply (rule exI[of _ "show_int (cols n)"])
    apply (rule exI[of _ "CHR '' ''"])
    apply (rule exI[of _ "note_type n"])
    apply (rule exI[of _ "'' '' @ note_info n @ '' ''"])
    apply (rule exI[of _ "diagnostic n"])
    apply (rule exI[of _ "[]"])
    using eq one(1,3) m sp sev show_int_nonneg[OF pos(1)] show_int_nonneg[OF pos(2)]
    apply simp
    done
qed

lemma plain_header_fields:
  assumes i: "TidyNotification_init e l = Inr n"
    and sl: "sliced_line e l = [path, d1, d2, s # sev, y]"
    and d: "d1 \<noteq> []" "list_all is_digit d1" "d2 \<noteq> []" "list_all is_digit d2"
    and s: "is_space s" "sev \<noteq> []" "list_all is_word sev"
  shows "0 \<le> line n \<and> 0 \<le> cols n \<and> note_type n = sev"
proof -
  from init_success[OF i] sl have
    li: "py_int d1 = Inr (line n)" and co: "py_int d2 = Inr (cols n)"
    and nt: "note_type n = strip (s # sev)"
    by auto
  from py_int_digits[OF d(1,2)] li have "0 \<le> line n" by auto
  moreover from py_int_digits[OF d(3,4)] co have "0 \<le> cols n" by auto
  moreover have "strip (s # sev) = sev" using s by (rule strip_space_word)
  ultimately show ?thesis using nt by simp
qed

text \<open>
  Claim C9, as amended. Let a header line be given from which the constructor makes a
  record, and write a line \<^verbatim>\<open><path>:<line>:<col>: <severity>: <message> [<check-id>]\<close>
  from the fields of the record. The constructor makes a record from that line too, with
  the same line, column, severity, check id and message (which was trimmed and freed of
  its bracket segment the first time), and with the file name normalised once more: the
  file name is reproduced exactly when it contains no further occurrence of the working
  directory prefix that \<^verbatim>\<open>str.replace\<close> finds. The line written from the fields is
  matched as a header line again when line and column are not negative and the severity
  is a word, which is so whenever the split of the given line has five segments.
\<close>

theorem header_round_trip:
  assumes h: "is_header l" and i: "TidyNotification_init e l = Inr n"
  shows "TidyNotification_init e (header_of_fields n) =
           Inr (n\<lparr>filename := remove_all (cwd e @ sep e) (filename n)\<rparr>) \<and>
         (remove_all (cwd e @ sep e) (filename n) = filename n \<longrightarrow>
            TidyNotification_init e (header_of_fields n) = Inr n) \<and>
         (0 \<le> line n \<and> 0 \<le> cols n \<and> note_type n \<noteq> [] \<and> list_all is_word (note_type n) \<longrightarrow>
            is_header (header_of_fields n)) \<and>
         (length (split_on CHR '':'' l) = 5 \<longrightarrow> is_header (header_of_fields n))"
proof (intro conjI impI)
  show a: "TidyNotification_init e (header_of_fields n) =
           Inr (n\<lparr>filename := remove_all (cwd e @ sep e) (filename n)\<rparr>)"
    using h i by (rule init_header_of_fields)
  { assume "remove_all (cwd e @ sep e) (filename n) = filename n"
    then show "TidyNotification_init e (header_of_fields n) = Inr n"
      using a by simp }
  { assume "0 \<le> line n \<and> 0 \<le> cols n \<and> note_type n \<noteq> [] \<and> list_all is_word (note_type n)"
    then show "is_header (header_of_fields n)"
      using is_header_of_fields[OF h i] by blast }
  { assume five: "length (split_on CHR '':'' l) = 5"
    have len: "length (sliced_line e l) = 5" using init_success[OF i] by blast
    from header_sliced_cases[OF h len] five obtain path d1 d2 s sev y where
      "sliced_line e l = [path, d1, d2, s # sev, y]"
      "d1 \<noteq> []" "list_all is_digit d1" "d2 \<noteq> []" "list_all is_digit d2"
      "is_space s" "sev \<noteq> []" "list_all is_word sev"
      by auto
    from plain_header_fields[OF i this]
    show "is_header (header_of_fields n)"
      using is_header_of_fields[OF h i] \<open>sev \<noteq> []\<close> \<open>list_all is_word sev\<close> by auto }
qed

theorem header_round_trip_witness:
  "is_header (''/w/src/file.cpp:12:5: error: bad thing [check-y]'' @ [NL]) \<and>
   TidyNotification_init linux_env (''/w/src/file.cpp:12:5: error: bad thing [check-y]'' @ [NL]) =
     Inr \<lparr> diagnostic = ''check-y'', filename = ''src/file.cpp'', line = 12, cols = 5,
           note_type = ''error'', note_info = ''bad thing'', fixit_lines = [] \<rparr> \<and>
   header_of_fields \<lparr> diagnostic = ''check-y'', filename = ''src/file.cpp'', line = 12, cols = 5,
           note_type = ''error'', note_info = ''bad thing'', fixit_lines = [] \<rparr> =
     ''src/file.cpp:12:5: error: bad thing [check-y]'' \<and>
   TidyNotification_init linux_env
     (header_of_fields \<lparr> diagnostic = ''check-y'', filename = ''src/file.cpp'', line = 12, cols = 5,
           note_type = ''error'', note_info = ''bad thing'', fixit_lines = [] \<rparr>) =
     Inr \<lparr> diagnostic = ''check-y'', filename = ''src/file.cpp'', line = 12, cols = 5,
           note_type = ''error'', note_info = ''bad thing'', fixit_lines = [] \<rparr> \<and>
   is_header (header_of_fields \<lparr> diagnostic = ''check-y'', filename = ''src/file.cpp'', line = 12,
           cols = 5, note_type = ''error'', note_info = ''bad thing'', fixit_lines = [] \<rparr>) \<and>
   TidyNotification_init windows_env
     (''C:'' @ [CHR 0x5C] @ ''src'' @ [CHR 0x5C] @ ''file.cpp:12:5: warning: unused variable [check-x]'') =
     Inr \<lparr> diagnostic = ''check-x'', filename = ''C:'' @ [CHR 0x5C] @ ''src'' @ [CHR 0x5C] @ ''file.cpp'',
           line = 12, cols = 5, note_type = ''warning'', note_info = ''unused variable'',
           fixit_lines = [] \<rparr> \<and>
   TidyNotification_init windows_env
     (header_of_fields \<lparr> diagnostic = ''check-x'',
           filename = ''C:'' @ [CHR 0x5C] @ ''src'' @ [CHR 0x5C] @ ''file.cpp'',
           line = 12, cols = 5, note_type = ''warning'', note_info = ''unused variable'',
           fixit_lines = [] \<rparr>) =
     Inr \<lparr> diagnostic = ''check-x'', filename = ''C:'' @ [CHR 0x5C] @ ''src'' @ [CHR 0x5C] @ ''file.cpp'',
           line = 12, cols = 5, note_type = ''warning'', note_info = ''unused variable'',
           fixit_lines = [] \<rparr> \<and>
   is_header (header_of_fields \<lparr> diagnostic = ''check-x'',
           filename = ''C:'' @ [CHR 0x5C] @ ''src'' @ [CHR 0x5C] @ ''file.cpp'',
           line = 12, cols = 5, note_type = ''warning'', note_info = ''unused variable'',
           fixit_lines = [] \<rparr>)"
proof -
  let ?l = "''/w/src/file.cpp:12:5: error: bad thing [check-y]'' @ [NL]"
  let ?n = "\<lparr> diagnostic = ''check-y'', filename = ''src/file.cpp'', line = 12, cols = 5,
           note_type = ''error'', note_info = ''bad thing'', fixit_lines = [] \<rparr>"
  let ?l' = "''C:'' @ [CHR 0x5C] @ ''src'' @ [CHR 0x5C] @ ''file.cpp:12:5: warning: unused variable [check-x]''"
  let ?n' = "\<lparr> diagnostic = ''check-x'',
           filename = ''C:'' @ [CHR 0x5C] @ ''src'' @ [CHR 0x5C] @ ''file.cpp'',
           line = 12, cols = 5, note_type = ''warning'', note_info = ''unused variable'',
           fixit_lines = [] \<rparr>"
  have h: "is_header ?l"
    by code_simp
  have i: "TidyNotification_init linux_env ?l = Inr ?n"
    by code_simp
  have s: "remove_all (cwd linux_env @ sep linux_env) (filename ?n) = filename ?n"
    by code_simp
  have f: "header_of_fields ?n = ''src/file.cpp:12:5: error: bad thing [check-y]''"
    by code_simp
  have five: "length (split_on CHR '':'' ?l) = 5"
    by code_simp
  have h': "is_header ?l'"
    by code_simp
  have i': "TidyNotification_init windows_env ?l' = Inr ?n'"
    by code_simp
  have s': "remove_all (cwd windows_env @ sep windows_env) (filename ?n') = filename ?n'"
    by code_simp
  have w': "0 \<le> line ?n' \<and> 0 \<le> cols ?n' \<and> note_type ?n' \<noteq> [] \<and> list_all is_word (note_type ?n')"
    by code_simp
  from header_round_trip[OF h i] s five
  have 1: "TidyNotification_init linux_env (header_of_fields ?n) = Inr ?n"
    and 2: "is_header (header_of_fields ?n)"
    by blast+
  from header_round_trip[OF h' i'] s' w'
  have 3: "TidyNotification_init windows_env (header_of_fields ?n') = Inr ?n'"
    and 4: "is_header (header_of_fields ?n')"
    by blast+
  from h i f 1 2 i' 3 4 show ?thesis by simp
qed

text \<open>A header line whose file name still contains the working directory prefix after
  the constructor has deleted it once: the record made from the header line of the fields
  has another file name.\<close>

theorem header_round_trip_filename_changes:
  "is_header (''//w/w/x.cpp:1:2: warning: m [c]'' @ [NL]) \<and>
   TidyNotification_init linux_env (''//w/w/x.cpp:1:2: warning: m [c]'' @ [NL]) =
     Inr \<lparr> diagnostic = ''c'', filename = ''/w/x.cpp'', line = 1, cols = 2,
           note_type = ''warning'', note_info = ''m'', fixit_lines = [] \<rparr> \<and>
   header_of_fields \<lparr> diagnostic = ''c'', filename = ''/w/x.cpp'', line = 1, cols = 2,
           note_type = ''warning'', note_info = ''m'', fixit_lines = [] \<rparr> =
     ''/w/x.cpp:1:2: warning: m [c]'' \<and>
   TidyNotification_init linux_env ''/w/x.cpp:1:2: warning: m [c]'' =
     Inr \<lparr> diagnostic = ''c'', filename = ''x.cpp'', line = 1, cols = 2,
           note_type = ''warning'', note_info = ''m'', fixit_lines = [] \<rparr>"
  by code_simp

section \<open>The parse pass\<close>

lemma init_fixit_lines: "TidyNotification_init e l = Inr n \<Longrightarrow> fixit_lines n = []"
  by (auto simp: TidyNotification_init_def Let_def split: if_splits option.splits sum.splits)

lemma parse_lines_active:
  "parse_lines e (Some (length acc)) (acc @ [n]) ls =
     (case collect e (blocks ls) of
        (err, ns) \<Rightarrow>
          (err, acc @ [n\<lparr>fixit_lines := fixit_lines n @ takeWhile (\<lambda>x. \<not> is_header x) ls\<rparr>] @ ns))"
proof (induction ls arbitrary: acc n)
  case Nil
  show ?case by simp
next
  case (Cons l ls)
  show ?case
  proof (cases "is_header l")
    case False
    have "parse_lines e (Some (length acc)) (acc @ [n]) (l # ls) =
          parse_lines e (Some (length acc)) (acc @ [append_fixit l n]) ls"
      using False by simp
    also have "\<dots> = (case collect e (blocks ls) of
        (err, ns) \<Rightarrow>
          (err, acc @ [(append_fixit l n)\<lparr>fixit_lines := fixit_lines (append_fixit l n) @ takeWhile (\<lambda>x. \<not> is_header x) ls\<rparr>] @ ns))"
      by (rule Cons.IH)
    finally show ?thesis using False by (simp add: append_fixit_def)
  next
    case True
    show ?thesis
    proof (cases "TidyNotification_init e l")
      case (Inl err)
      then show ?thesis using True by simp
    next
      case (Inr n2)
      have "parse_lines e (Some (length acc)) (acc @ [n]) (l # ls) =
            parse_lines e (Some (length (acc @ [n]))) ((acc @ [n]) @ [n2]) ls"
        using True Inr by simp
      also have "\<dots> = (case collect e (blocks ls) of
        (err, ns) \<Rightarrow>
          (err, (acc @ [n]) @ [n2\<lparr>fixit_lines := fixit_lines n2 @ takeWhile (\<lambda>x. \<not> is_header x) ls\<rparr>] @ ns))"
        by (rule Cons.IH)
      finally show ?thesis using True Inr init_fixit_lines[OF Inr]
        by (simp split: prod.splits)
    qed
  qed
qed

lemma parse_lines_idle:
  "parse_lines e None acc ls =
     (case collect e (blocks ls) of (err, ns) \<Rightarrow> (err, acc @ ns))"
proof (induction ls)
  case Nil
  show ?case by simp
next
  case (Cons l ls)
  show ?case
  proof (cases "is_header l")
    case False
    then show ?thesis using Cons.IH by simp
  next
    case True
    show ?thesis
    proof (cases "TidyNotification_init e l")
      case (Inl err)
      then show ?thesis using True by simp
    next
      case (Inr n2)
      then show ?thesis using True init_fixit_lines[OF Inr] parse_lines_active[of e acc n2 ls]
        by (simp split: prod.splits)
    qed
  qed
qed

lemma collect_blocks:
  "collect e bs = (err, ns) \<Longrightarrow>
     length ns \<le> length bs \<and> (err = None \<longrightarrow> length ns = length bs) \<and>
     list_all2 (excerpt_of e) ns (take (length ns) bs)"
proof (induction bs arbitrary: err ns)
  case Nil
  then show ?case by simp
next
  case (Cons b bs)
  obtain h ex where b: "b = (h, ex)" by (cases b)
  show ?case
  proof (cases "TidyNotification_init e h")
    case (Inl x)
    then show ?thesis using Cons.prems b by auto
  next
    case (Inr n)
    obtain err' ns' where c: "collect e bs = (err', ns')" by (cases "collect e bs")
    from Cons.prems b Inr c have eq: "err = err'" "ns = n\<lparr>fixit_lines := ex\<rparr> # ns'" by auto
    have "fixit_lines n = []" using Inr by (rule init_fixit_lines)
    then have "excerpt_of e (n\<lparr>fixit_lines := ex\<rparr>) b"
      using Inr b by (simp add: excerpt_of_def)
    then show ?thesis using Cons.IH[OF c] eq by simp
  qed
qed

lemma parse_lines_skip:
  "\<forall>l\<in>set pre. \<not> is_header l \<Longrightarrow> parse_lines e None acc (pre @ ls) = parse_lines e None acc ls"
  by (induction pre) auto

text \<open>
  Claim C1. In a pass that starts with the list \<open>acc\<close>, the records added are, in order,
  those of the blocks of the input: the excerpt of each is exactly the lines that are not
  header lines between its header line and the next header line or the end of the input,
  unchanged and in their order. When the pass raises, this holds for the records added
  until then. Lines before the first header line have no effect on the result, so they
  are in no excerpt.
\<close>

theorem fixit_lines_between_headers:
  "(parse_lines e None acc ls = (err, res) \<longrightarrow>
      (\<exists>new. res = acc @ new \<and> length new \<le> length (blocks ls) \<and>
         (err = None \<longrightarrow> length new = length (blocks ls)) \<and>
         list_all2 (excerpt_of e) new (take (length new) (blocks ls)))) \<and>
   ((\<forall>l\<in>set pre. \<not> is_header l) \<longrightarrow>
      parse_lines e None acc (pre @ ls) = parse_lines e None acc ls)"
proof (intro conjI impI)
  assume a: "parse_lines e None acc ls = (err, res)"
  obtain ns where c: "collect e (blocks ls) = (err, ns)" and r: "res = acc @ ns"
    using a by (auto simp: parse_lines_idle split: prod.splits)
  from collect_blocks[OF c] r
  show "\<exists>new. res = acc @ new \<and> length new \<le> length (blocks ls) \<and>
         (err = None \<longrightarrow> length new = length (blocks ls)) \<and>
         list_all2 (excerpt_of e) new (take (length new) (blocks ls))"
    by blast
next
  assume "\<forall>l\<in>set pre. \<not> is_header l"
  then show "parse_lines e None acc (pre @ ls) = parse_lines e None acc ls"
    by (rule parse_lines_skip)
qed

theorem fixit_lines_between_headers_witness:
  "parse_lines linux_env None [] example_lines = (None, example_notes) \<and>
   (\<exists>new. example_notes = [] @ new \<and> length new = length (blocks example_lines) \<and>
      list_all2 (excerpt_of linux_env) new (take (length new) (blocks example_lines))) \<and>
   \<not> is_header (''junk'' @ [NL]) \<and> \<not> is_header [NL] \<and>
   parse_lines linux_env None [] ([''junk'' @ [NL], [NL]] @ example_lines) =
     parse_lines linux_env None [] example_lines"
proof -
  have run: "parse_lines linux_env None [] example_lines = (None, example_notes)"
    by code_simp
  have pre: "\<forall>l\<in>set [''junk'' @ [NL], [NL]]. \<not> is_header l"
    by code_simp
  from fixit_lines_between_headers
         [of linux_env "[]" example_lines None example_notes "[''junk'' @ [NL], [NL]]"]
    run pre
  show ?thesis by auto
qed

lemma parse_lines_raises:
  "is_header l \<Longrightarrow> TidyNotification_init e l = Inl err \<Longrightarrow> l \<in> set ls \<Longrightarrow>
     \<exists>err'. fst (parse_lines e cur acc ls) = Some err'"
proof (induction ls arbitrary: cur acc)
  case Nil
  then show ?case by simp
next
  case (Cons x xs)
  show ?case
  proof (cases "x = l")
    case True
    then show ?thesis using Cons.prems by simp
  next
    case False
    then have "l \<in> set xs" using Cons.prems by simp
    then have ih: "\<And>cur acc. \<exists>err'. fst (parse_lines e cur acc xs) = Some err'"
      using Cons.IH Cons.prems by blast
    show ?thesis
      using ih by (auto split: sum.splits option.splits)
  qed
qed

text \<open>
  Claim C4. When the segments of a line, after the re-assembly of the path, are not
  exactly five, the constructor raises \<^verbatim>\<open>ValueError\<close>. In the pass the exception
  is not caught: the pass ends at such a header line with the exception, the list is as
  it was when the line was reached and the lines after it are not read; a pass over an
  input that contains such a header line always ends with an exception.
\<close>

theorem segment_count_error_aborts:
  "length (sliced_line e l) \<noteq> 5 \<longrightarrow>
     TidyNotification_init e l = Inl ValueError \<and>
     (is_header l \<longrightarrow> parse_lines e cur acc (l # rest) = (Some ValueError, acc)) \<and>
     (is_header l \<and> l \<in> set ls \<longrightarrow> (\<exists>err. fst (parse_lines e cur acc ls) = Some err))"
proof (intro impI conjI)
  assume a: "length (sliced_line e l) \<noteq> 5"
  then show i: "TidyNotification_init e l = Inl ValueError"
    by (simp add: TidyNotification_init_def Let_def)
  { assume "is_header l"
    then show "parse_lines e cur acc (l # rest) = (Some ValueError, acc)"
      using i by simp }
  { assume "is_header l \<and> l \<in> set ls"
    then show "\<exists>err. fst (parse_lines e cur acc ls) = Some err"
      using i parse_lines_raises by blast }
qed

theorem segment_count_error_aborts_witness:
  "length (sliced_line linux_env (''a.cpp:1:2: warning: foo: bar [c]'' @ [NL])) \<noteq> 5 \<and>
   is_header (''a.cpp:1:2: warning: foo: bar [c]'' @ [NL]) \<and>
   TidyNotification_init linux_env (''a.cpp:1:2: warning: foo: bar [c]'' @ [NL]) = Inl ValueError \<and>
   parse_lines linux_env None example_notes
     ((''a.cpp:1:2: warning: foo: bar [c]'' @ [NL]) # example_lines) = (Some ValueError, example_notes) \<and>
   (\<exists>err. fst (parse_lines linux_env None []
     (example_lines @ [''a.cpp:1:2: warning: foo: bar [c]'' @ [NL]] @ example_lines)) = Some err)"
proof -
  have a: "length (sliced_line linux_env (''a.cpp:1:2: warning: foo: bar [c]'' @ [NL])) \<noteq> 5"
    by code_simp
  have h: "is_header (''a.cpp:1:2: warning: foo: bar [c]'' @ [NL])"
    by code_simp
  have m: "''a.cpp:1:2: warning: foo: bar [c]'' @ [NL] \<in>
     set (example_lines @ [''a.cpp:1:2: warning: foo: bar [c]'' @ [NL]] @ example_lines)"
    by simp
  from segment_count_error_aborts
     [of linux_env "''a.cpp:1:2: warning: foo: bar [c]'' @ [NL]" None example_notes example_lines
         "example_lines @ [''a.cpp:1:2: warning: foo: bar [c]'' @ [NL]] @ example_lines"]
     segment_count_error_aborts
     [of linux_env "''a.cpp:1:2: warning: foo: bar [c]'' @ [NL]" None "[]" example_lines
         "example_lines @ [''a.cpp:1:2: warning: foo: bar [c]'' @ [NL]] @ example_lines"]
     a h m
  show ?thesis by blast
qed

lemma parse_lines_shift:
  "parse_lines e (map_option (\<lambda>i. length old + i) cur) (old @ acc) ls =
     (case parse_lines e cur acc ls of (err, res) \<Rightarrow> (err, old @ res))"
proof (induction ls arbitrary: cur acc)
  case Nil
  show ?case by simp
next
  case (Cons l ls)
  show ?case
  proof (cases "is_header l")
    case True
    show ?thesis
    proof (cases "TidyNotification_init e l")
      case (Inl a)
      then show ?thesis using True by simp
    next
      case (Inr n)
      have "parse_lines e (map_option (\<lambda>i. length old + i) (Some (length acc))) (old @ (acc @ [n])) ls =
            (case parse_lines e (Some (length acc)) (acc @ [n]) ls of (err, res) \<Rightarrow> (err, old @ res))"
        by (rule Cons.IH)
      then show ?thesis using True Inr by simp
    qed
  next
    case False
    show ?thesis
    proof (cases cur)
      case None
      then show ?thesis using False Cons.IH[of None acc] by simp
    next
      case (Some i)
      have "parse_lines e (map_option (\<lambda>i. length old + i) (Some i)) (old @ acc[i := append_fixit l (acc ! i)]) ls =
            (case parse_lines e (Some i) (acc[i := append_fixit l (acc ! i)]) ls of (err, res) \<Rightarrow> (err, old @ res))"
        by (rule Cons.IH)
      then show ?thesis using False Some by (simp add: list_update_append)
    qed
  qed
qed

lemma list_all2_in_set: "list_all2 P xs ys \<Longrightarrow> x \<in> set xs \<Longrightarrow> \<exists>y\<in>set ys. P x y"
  by (induction rule: list_all2_induct) auto

lemma blocks_headers: "(h, ex) \<in> set (blocks ls) \<Longrightarrow> h \<in> set ls \<and> is_header h"
  by (induction ls) (auto split: if_splits)

lemma parse_tidy_output_only_new:
  assumes "n \<in> set (snd (parse_lines e None [] ls))"
  shows "\<exists>l\<in>set ls. is_header l \<and> TidyNotification_init e l = Inr (n\<lparr>fixit_lines := []\<rparr>)"
proof -
  obtain err res where r: "parse_lines e None [] ls = (err, res)"
    by (cases "parse_lines e None [] ls")
  obtain ns where c: "collect e (blocks ls) = (err, ns)" and "res = ns"
    using r by (auto simp: parse_lines_idle split: prod.splits)
  from collect_blocks[OF c] have la: "list_all2 (excerpt_of e) ns (take (length ns) (blocks ls))"
    by simp
  from assms r \<open>res = ns\<close> have "n \<in> set ns" by simp
  then obtain b where b: "b \<in> set (take (length ns) (blocks ls))" "excerpt_of e n b"
    using list_all2_in_set[OF la, of n] by auto
  then have "b \<in> set (blocks ls)" by (meson in_set_takeD)
  then have "fst b \<in> set ls \<and> is_header (fst b)"
    using blocks_headers[of "fst b" "snd b" ls] by simp
  then show ?thesis using b(2) by (auto simp: excerpt_of_def)
qed

text \<open>
  Claim C8, as amended. A pass does not start from an empty collection: it appends to
  the shared list as it finds it. The records that were in the list before the call stay
  in front, unchanged, and the records of the pass follow them; the exception, if any,
  does not depend on the earlier contents. Started on an empty list, the pass leaves only
  records that it has constructed from header lines of its input.
\<close>

theorem parse_appends_to_shared_list:
  "parse_tidy_output e report tidy_notes =
     (fst (parse_tidy_output e report []), tidy_notes @ snd (parse_tidy_output e report [])) \<and>
   (\<forall>n\<in>set (snd (parse_tidy_output e report [])).
      \<exists>l\<in>set (readlines report). is_header l \<and> TidyNotification_init e l = Inr (n\<lparr>fixit_lines := []\<rparr>))"
proof
  show "parse_tidy_output e report tidy_notes =
     (fst (parse_tidy_output e report []), tidy_notes @ snd (parse_tidy_output e report []))"
    using parse_lines_shift[of e tidy_notes None "[]" "readlines report"]
    by (simp add: parse_tidy_output_def split: prod.splits)
  show "\<forall>n\<in>set (snd (parse_tidy_output e report [])).
      \<exists>l\<in>set (readlines report). is_header l \<and> TidyNotification_init e l = Inr (n\<lparr>fixit_lines := []\<rparr>)"
    unfolding parse_tidy_output_def by (intro ballI parse_tidy_output_only_new)
qed

text \<open>Two passes, one after the other: the record of the first is in the list after the
  second, which on an empty list would have left one record.\<close>

theorem parse_keeps_earlier_records:
  "parse_tidy_output linux_env first_report [] =
     (None, [\<lparr> diagnostic = ''c'', filename = ''a.cpp'', line = 1, cols = 2, note_type = ''warning'',
               note_info = ''x'', fixit_lines = [''  int x;'' @ [NL]] \<rparr>]) \<and>
   parse_tidy_output linux_env second_report (snd (parse_tidy_output linux_env first_report [])) =
     (None, [\<lparr> diagnostic = ''c'', filename = ''a.cpp'', line = 1, cols = 2, note_type = ''warning'',
               note_info = ''x'', fixit_lines = [''  int x;'' @ [NL]] \<rparr>,
             \<lparr> diagnostic = ''d'', filename = ''b.cpp'', line = 3, cols = 4, note_type = ''note'',
               note_info = ''y'', fixit_lines = [] \<rparr>]) \<and>
   parse_tidy_output linux_env second_report [] =
     (None, [\<lparr> diagnostic = ''d'', filename = ''b.cpp'', line = 3, cols = 4, note_type = ''note'',
               note_info = ''y'', fixit_lines = [] \<rparr>])"
  by code_simp

theorem parse_appends_to_shared_list_witness:
  "parse_tidy_output linux_env second_report (snd (parse_tidy_output linux_env first_report [])) =
     (None, snd (parse_tidy_output linux_env first_report []) @
              [\<lparr> diagnostic = ''d'', filename = ''b.cpp'', line = 3, cols = 4, note_type = ''note'',
                 note_info = ''y'', fixit_lines = [] \<rparr>]) \<and>
   \<lparr> diagnostic = ''d'', filename = ''b.cpp'', line = 3, cols = 4, note_type = ''note'',
                 note_info = ''y'', fixit_lines = [] \<rparr> \<in> set (snd (parse_tidy_output linux_env second_report [])) \<and>
   (\<exists>l\<in>set (readlines second_report). is_header l \<and>
      TidyNotification_init linux_env l =
        Inr \<lparr> diagnostic = ''d'', filename = ''b.cpp'', line = 3, cols = 4, note_type = ''note'',
                 note_info = ''y'', fixit_lines = [] \<rparr>)"
proof -
  have run: "parse_tidy_output linux_env second_report [] =
     (None, [\<lparr> diagnostic = ''d'', filename = ''b.cpp'', line = 3, cols = 4, note_type = ''note'',
               note_info = ''y'', fixit_lines = [] \<rparr>])"
    by code_simp
  from parse_appends_to_shared_list
         [of linux_env second_report "snd (parse_tidy_output linux_env first_report [])"] run
  show ?thesis by simp
qed

section \<open>The log command\<close>

text \<open>
  Claim C3. The log command of a notification is the text
  \<^verbatim>\<open>::<level> file=<filename>,line=<line>,title=<filename>:<line>:<col> [<check_id>]::<message>\<close>,
  where the level is \<^verbatim>\<open>notice\<close> when the severity starts with \<^verbatim>\<open>note\<close> and the
  severity itself otherwise; the notification of the example renders as
  \<^verbatim>\<open>::notice file=a.cpp,line=3,title=a.cpp:3:1 [c]::m\<close>.
\<close>

theorem log_command_rendering:
  "log_command n =
     ''::'' @ (if startswith (note_type n) ''note'' then ''notice'' else note_type n)
     @ '' file='' @ filename n @ '',line='' @ show_int (line n)
     @ '',title='' @ filename n @ '':'' @ show_int (line n) @ '':'' @ show_int (cols n)
     @ '' ['' @ diagnostic n @ '']::'' @ note_info n \<and>
   log_command \<lparr> diagnostic = ''c'', filename = ''a.cpp'', line = 3, cols = 1,
                 note_type = ''note'', note_info = ''m'', fixit_lines = [] \<rparr> =
     ''::notice file=a.cpp,line=3,title=a.cpp:3:1 [c]::m''"
  by (simp add: log_command_def startswith_def show_int_def show_nat.simps digit_char_def)

theorem log_command_rendering_witness:
  "log_command \<lparr> diagnostic = ''check-x'', filename = ''b.cpp'', line = 12, cols = 5,
                 note_type = ''warning'', note_info = ''unused variable'', fixit_lines = [] \<rparr> =
     ''::warning file=b.cpp,line=12,title=b.cpp:12:5 [check-x]::unused variable''"
  using log_command_rendering
    [of "\<lparr> diagnostic = ''check-x'', filename = ''b.cpp'', line = 12, cols = 5,
                 note_type = ''warning'', note_info = ''unused variable'', fixit_lines = [] \<rparr>"]
  by (simp add: startswith_def show_int_def show_nat.simps digit_char_def)

end
